theory Spec2Isabelle
  imports Complex_Main "HOL-Library.Word"
begin

section \<open>Line-follower firmware (firmware.ino): data model\<close>

text \<open>
  The firmware keeps its state in file-scope variables and in the two \<^verbatim>\<open>static\<close>
  locals of \<^verbatim>\<open>readVisionSerial\<close>.  The record below holds all of them, under the
  names of the source.

  Number representation:
  \<^item> \<^verbatim>\<open>unsigned long\<close> (the values of \<^verbatim>\<open>millis()\<close> and \<^verbatim>\<open>micros()\<close>) is a 32-bit
    word; subtraction wraps around as in C.
  \<^item> \<^verbatim>\<open>float\<close> values that the control tick computes are modelled by the real
    numbers they denote, with exact arithmetic (rounding is not modelled).  A decimal
    literal such as \<^verbatim>\<open>0.35f\<close> stands for the real number 0.35.
  \<^item> \<^verbatim>\<open>lastLk\<close> is the one \<^verbatim>\<open>float\<close> that comes from outside, through \<^verbatim>\<open>sscanf\<close>.
    It has the type \<open>cfloat\<close>: a real number, an infinity or NaN.  The firmware
    only compares it, and a comparison with NaN is false, as in IEEE 754.
  \<^item> \<^verbatim>\<open>int\<close> has 16 bits on the ATmega2560, the board named in the first line of the
    source: \<^verbatim>\<open>int v\<close> is a 16-bit word (two's complement).
  \<^item> \<^verbatim>\<open>char\<close> is an 8-bit character; \<^verbatim>\<open>idx\<close> (an \<^verbatim>\<open>int\<close> that the code keeps in
    0..39) is a natural number.
\<close>

type_synonym ulong = "32 word"

type_synonym cint = "16 word"

datatype cfloat = Finite real | PInf | NInf | NaN

instantiation cfloat :: ord
begin

fun less_cfloat :: "cfloat \<Rightarrow> cfloat \<Rightarrow> bool" where
  "less_cfloat NaN y = False"
| "less_cfloat x NaN = False"
| "less_cfloat (Finite a) (Finite b) = (a < b)"
| "less_cfloat (Finite a) PInf = True"
| "less_cfloat (Finite a) NInf = False"
| "less_cfloat PInf y = False"
| "less_cfloat NInf NInf = False"
| "less_cfloat NInf y = True"

fun less_eq_cfloat :: "cfloat \<Rightarrow> cfloat \<Rightarrow> bool" where
  "less_eq_cfloat NaN y = False"
| "less_eq_cfloat x NaN = False"
| "less_eq_cfloat (Finite a) (Finite b) = (a \<le> b)"
| "less_eq_cfloat (Finite a) PInf = True"
| "less_eq_cfloat (Finite a) NInf = False"
| "less_eq_cfloat PInf PInf = True"
| "less_eq_cfloat PInf y = False"
| "less_eq_cfloat NInf y = True"

instance ..

end

record state =
  lastLk :: cfloat
  lastValid :: bool
  lastVisionMs :: ulong
  lastControlUs :: ulong
  Kp :: real
  Ki :: real
  Kd :: real
  integ :: real
  prevE :: real
  baseSpeed :: real
  buf :: "char list"
  idx :: nat

definition CONTROL_DT_US :: ulong where
  "CONTROL_DT_US = 5000"

definition BASE_MIN :: real where
  "BASE_MIN = 0.20"

definition BASE_MAX :: real where
  "BASE_MAX = 0.70"

text \<open>The initialisers of the globals; \<^verbatim>\<open>static char buf[40]\<close> starts zero-filled.\<close>

definition NUL :: char where
  "NUL = CHR 0x00"

definition init :: state where
  "init = \<lparr> lastLk = Finite 0, lastValid = False, lastVisionMs = 0, lastControlUs = 0,
            Kp = 0.55, Ki = 0, Kd = 0.12, integ = 0, prevE = 0, baseSpeed = 0.35,
            buf = replicate 40 NUL, idx = 0 \<rparr>"

subsection \<open>clampf\<close>

text \<open>
  One definition serves both uses of \<^verbatim>\<open>clampf\<close>: on the value received from the
  serial line (a \<open>cfloat\<close>) and on the speeds and wheel commands (reals).  With a NaN
  both comparisons are false and the NaN is returned.
\<close>

definition clampf :: "'a::ord \<Rightarrow> 'a \<Rightarrow> 'a \<Rightarrow> 'a" where
  "clampf x lo hi = (if x < lo then lo else if x > hi then hi else x)"

subsection \<open>sscanf with the format "L,%f,%d"\<close>

text \<open>
  \<^verbatim>\<open>sscanf\<close> belongs to the C library, not to the firmware.  It is modelled after
  ISO C (7.21.6.2, and 7.22.1.3 for the forms of a floating-point number) for the one
  format string the firmware uses:
  \<^item> an ordinary character of the format (\<^verbatim>\<open>L\<close> and the commas) must be the next
    character of the input;
  \<^item> \<^verbatim>\<open>%f\<close> and \<^verbatim>\<open>%d\<close> skip white space, then take the longest input that is a
    prefix of a number of the expected form; when that input is not itself a number
    (no digit, an exponent letter without digits after it, \<^verbatim>\<open>infin\<close>, \<^verbatim>\<open>0x\<close> without a
    hexadecimal digit, \<^verbatim>\<open>nan(\<close> without the closing parenthesis) the directive fails;
  \<^item> the result is the number of values assigned, or \<^verbatim>\<open>EOF\<close> when the input ends
    before the first conversion.
  \<^verbatim>\<open>%f\<close> takes an optional sign and then a decimal number (digits with an optional
  point, an optional decimal exponent), a hexadecimal number (\<^verbatim>\<open>0x\<close>, hexadecimal
  digits with an optional point, an optional binary exponent), \<^verbatim>\<open>inf\<close> or
  \<^verbatim>\<open>infinity\<close>, or \<^verbatim>\<open>nan\<close> with an optional parenthesised sequence; letters in
  either case.  The value of a number is the real number written (rounding to
  \<^verbatim>\<open>float\<close> is not modelled).  \<^verbatim>\<open>%d\<close> takes an optionally signed decimal integer and
  stores it in the 16-bit \<^verbatim>\<open>int\<close>; a value that does not fit (undefined in ISO C)
  wraps around, as the C library of the board does.
\<close>

definition isspace :: "char \<Rightarrow> bool" where
  "isspace c = (c \<in> set [CHR '' '', CHR 0x09, CHR 0x0A, CHR 0x0B, CHR 0x0C, CHR 0x0D])"

definition isdigit :: "char \<Rightarrow> bool" where
  "isdigit c = (48 \<le> (of_char c :: nat) \<and> (of_char c :: nat) \<le> 57)"

definition isxdigit :: "char \<Rightarrow> bool" where
  "isxdigit c =
     (isdigit c \<or> (65 \<le> (of_char c :: nat) \<and> (of_char c :: nat) \<le> 70)
                \<or> (97 \<le> (of_char c :: nat) \<and> (of_char c :: nat) \<le> 102))"

definition isalpha :: "char \<Rightarrow> bool" where
  "isalpha c =
     ((65 \<le> (of_char c :: nat) \<and> (of_char c :: nat) \<le> 90)
      \<or> (97 \<le> (of_char c :: nat) \<and> (of_char c :: nat) \<le> 122))"

definition digitsVal :: "string \<Rightarrow> nat" where
  "digitsVal ds = foldl (\<lambda>n c. 10 * n + (of_char c - 48)) 0 ds"

definition xdigitVal :: "char \<Rightarrow> nat" where
  "xdigitVal c =
     (if isdigit c then of_char c - 48
      else if 97 \<le> (of_char c :: nat) then of_char c - 87
      else of_char c - 55)"

definition hexVal :: "string \<Rightarrow> nat" where
  "hexVal ds = foldl (\<lambda>n c. 16 * n + xdigitVal c) 0 ds"

definition EOF :: int where
  "EOF = -1"

text \<open>
  The input character \<open>c\<close> is the lower-case letter \<open>k\<close> or its upper-case form (in
  ASCII the upper-case letter is 32 below).
\<close>

definition sameLetter :: "char \<Rightarrow> char \<Rightarrow> bool" where
  "sameLetter k c = (c = k \<or> (of_char c :: nat) + 32 = of_char k)"

text \<open>How many characters of the lower-case word \<open>kw\<close> the input starts with.\<close>

fun matchWord :: "string \<Rightarrow> string \<Rightarrow> nat" where
  "matchWord [] s = 0"
| "matchWord (k # ks) [] = 0"
| "matchWord (k # ks) (c # cs) = (if sameLetter k c then Suc (matchWord ks cs) else 0)"

text \<open>An optional sign: whether it was a minus, and the input after it.\<close>

definition scanSign :: "string \<Rightarrow> bool \<times> string" where
  "scanSign s =
     (case s of
        [] \<Rightarrow> (False, [])
      | c # r \<Rightarrow>
          if c = CHR ''-'' then (True, r)
          else if c = CHR ''+'' then (False, r)
          else (False, s))"

text \<open>An optionally signed run of decimal digits, as a mathematical integer.\<close>

definition scanDecimal :: "string \<Rightarrow> (int \<times> string) option" where
  "scanDecimal s =
     (let (neg, s1) = scanSign s;
          ds = takeWhile isdigit s1;
          rest = dropWhile isdigit s1
      in if ds = [] then None
         else Some (if neg then - int (digitsVal ds) else int (digitsVal ds), rest))"

text \<open>
  The directive \<^verbatim>\<open>%d\<close> (white space already skipped): the integer is stored in an
  \<^verbatim>\<open>int\<close> of 16 bits.
\<close>

definition scanInt :: "string \<Rightarrow> (cint \<times> string) option" where
  "scanInt s =
     (case scanDecimal s of
        None \<Rightarrow> None
      | Some (n, rest) \<Rightarrow> Some (word_of_int n, rest))"

text \<open>
  The exponent part of a floating-point number: absent, or an exponent letter (given
  by \<open>isE\<close>) and a signed decimal integer.
\<close>

definition scanExp :: "(char \<Rightarrow> bool) \<Rightarrow> string \<Rightarrow> (int \<times> string) option" where
  "scanExp isE s =
     (case s of
        [] \<Rightarrow> Some (0, [])
      | c # r \<Rightarrow>
          if isE c then scanDecimal r
          else Some (0, s))"

text \<open>The digits after the point, when there is a point.\<close>

definition scanFrac :: "(char \<Rightarrow> bool) \<Rightarrow> string \<Rightarrow> string \<times> string" where
  "scanFrac isd s =
     (case s of
        [] \<Rightarrow> ([], [])
      | c # r \<Rightarrow>
          if c = CHR ''.'' then (takeWhile isd r, dropWhile isd r)
          else ([], s))"

text \<open>
  An unsigned number in base \<open>b\<close> with digits \<open>isd\<close> of value \<open>val\<close>, and an exponent
  introduced by a letter \<open>isE\<close> that scales by powers of \<open>eb\<close>: base 10 with
  \<^verbatim>\<open>e\<close> and powers of 10, or base 16 with \<^verbatim>\<open>p\<close> and powers of 2.
\<close>

definition scanNumber ::
  "(char \<Rightarrow> bool) \<Rightarrow> (string \<Rightarrow> nat) \<Rightarrow> nat \<Rightarrow> (char \<Rightarrow> bool) \<Rightarrow> real \<Rightarrow> string \<Rightarrow> (real \<times> string) option" where
  "scanNumber isd val b isE eb s =
     (let ip = takeWhile isd s;
          (fp, s3) = scanFrac isd (dropWhile isd s)
      in if ip = [] \<and> fp = [] then None
         else
           case scanExp isE s3 of
             None \<Rightarrow> None
           | Some (ex, rest) \<Rightarrow>
               let m = real (val (ip @ fp)) / real b ^ length fp;
                   x = (if 0 \<le> ex then m * eb ^ nat ex else m / eb ^ nat (- ex))
               in Some (x, rest))"

text \<open>After \<^verbatim>\<open>nan\<close>: nothing more, or a parenthesised run of letters, digits, underscores.\<close>

definition scanNanTail :: "string \<Rightarrow> (cfloat \<times> string) option" where
  "scanNanTail s =
     (case s of
        [] \<Rightarrow> Some (NaN, [])
      | c # r \<Rightarrow>
          if c = CHR ''('' then
            (case dropWhile (\<lambda>d. isdigit d \<or> isalpha d \<or> d = CHR ''_'') r of
               [] \<Rightarrow> None
             | d # r' \<Rightarrow> if d = CHR '')'' then Some (NaN, r') else None)
          else Some (NaN, s))"

text \<open>Whether the input starts with \<^verbatim>\<open>0x\<close> or \<^verbatim>\<open>0X\<close>.\<close>

definition hexPrefix :: "string \<Rightarrow> bool" where
  "hexPrefix s =
     (case s of
        c0 # c1 # r \<Rightarrow> c0 = CHR ''0'' \<and> (c1 = CHR ''x'' \<or> c1 = CHR ''X'')
      | _ \<Rightarrow> False)"

text \<open>The directive \<^verbatim>\<open>%f\<close> (white space already skipped).\<close>

definition scanFloat :: "string \<Rightarrow> (cfloat \<times> string) option" where
  "scanFloat s =
     (let (neg, s1) = scanSign s in
      if 0 < matchWord ''infinity'' s1 then
        (if matchWord ''infinity'' s1 = 8 then Some (if neg then NInf else PInf, drop 8 s1)
         else if matchWord ''infinity'' s1 = 3 then Some (if neg then NInf else PInf, drop 3 s1)
         else None)
      else if 0 < matchWord ''nan'' s1 then
        (if matchWord ''nan'' s1 = 3 then scanNanTail (drop 3 s1) else None)
      else
        case (if hexPrefix s1
              then scanNumber isxdigit hexVal 16 (\<lambda>c. c = CHR ''p'' \<or> c = CHR ''P'') 2 (drop 2 s1)
              else scanNumber isdigit digitsVal 10 (\<lambda>c. c = CHR ''e'' \<or> c = CHR ''E'') 10 s1) of
          None \<Rightarrow> None
        | Some (x, rest) \<Rightarrow> Some (Finite (if neg then - x else x), rest))"

text \<open>
  The call \<^verbatim>\<open>sscanf(buf, "L,%f,%d", &lk, &v)\<close> with \<^verbatim>\<open>lk\<close> and \<^verbatim>\<open>v\<close> initialised
  to 0: the returned count and the values of \<^verbatim>\<open>lk\<close> and \<^verbatim>\<open>v\<close> after the call.
\<close>

definition sscanf_L_f_d :: "string \<Rightarrow> int \<times> cfloat \<times> cint" where
  "sscanf_L_f_d s =
     (case s of
        [] \<Rightarrow> (EOF, Finite 0, 0)
      | c0 # s0 \<Rightarrow>
          if c0 \<noteq> CHR ''L'' then (0, Finite 0, 0)
          else
            case s0 of
              [] \<Rightarrow> (EOF, Finite 0, 0)
            | c1 # s1 \<Rightarrow>
                if c1 \<noteq> CHR '','' then (0, Finite 0, 0)
                else
                  let s2 = dropWhile isspace s1 in
                  if s2 = [] then (EOF, Finite 0, 0)
                  else
                    case scanFloat s2 of
                      None \<Rightarrow> (0, Finite 0, 0)
                    | Some (lk, s3) \<Rightarrow>
                        (case s3 of
                           [] \<Rightarrow> (1, lk, 0)
                         | c3 # s4 \<Rightarrow>
                             if c3 \<noteq> CHR '','' then (1, lk, 0)
                             else
                               let s5 = dropWhile isspace s4 in
                               if s5 = [] then (1, lk, 0)
                               else
                                 case scanInt s5 of
                                   None \<Rightarrow> (1, lk, 0)
                                 | Some (v, rest) \<Rightarrow> (2, lk, v)))"

subsection \<open>readVisionSerial\<close>

text \<open>The C string held in an array: the characters before the first NUL.\<close>

definition cstr :: "char list \<Rightarrow> string" where
  "cstr b = takeWhile (\<lambda>c. c \<noteq> NUL) b"

text \<open>
  One round of the \<^verbatim>\<open>while\<close> loop: the character \<open>c\<close> read from the serial port.
  \<open>now\<close> is the value \<^verbatim>\<open>millis()\<close> has during this round.  \<^verbatim>\<open>buf\<close> has 40 elements,
  so \<^verbatim>\<open>(int)sizeof(buf) - 1\<close> is 39.
\<close>

definition rxByte :: "ulong \<Rightarrow> char \<Rightarrow> state \<Rightarrow> state" where
  "rxByte now c st =
     (if c = CHR 0x0A then
        let b = (buf st)[idx st := NUL];
            st1 = st\<lparr>buf := b, idx := 0\<rparr>
        in if b ! 0 = CHR ''L'' \<and> b ! 1 = CHR '','' then
             (case sscanf_L_f_d (cstr b) of
                (n, lk, v) \<Rightarrow>
                  if n = 2 then
                    st1\<lparr>lastLk := clampf lk (Finite 0) (Finite 1), lastValid := (v \<noteq> 0),
                        lastVisionMs := now\<rparr>
                  else st1)
           else st1
      else if idx st < 39 then st\<lparr>buf := (buf st)[idx st := c], idx := idx st + 1\<rparr>
      else st\<lparr>idx := 0\<rparr>)"

text \<open>
  The loop runs while \<^verbatim>\<open>Serial.available() > 0\<close>: over the characters that are
  available during this call, each paired with the time at which it is handled.
\<close>

fun readVisionSerial :: "(char \<times> ulong) list \<Rightarrow> state \<Rightarrow> state" where
  "readVisionSerial [] st = st"
| "readVisionSerial ((c, now) # rest) st = readVisionSerial rest (rxByte now c st)"

subsection \<open>computeIrError\<close>

text \<open>
  \<^verbatim>\<open>analogRead(IR_PINS[i])\<close> is an input of the tick: a function from the channel
  index 0..7 to the raw reading.  The loop over the eight channels accumulates
  \<^verbatim>\<open>sum\<close> (named \<open>sm\<close> here) and \<^verbatim>\<open>wsum\<close>, starting at index \<open>i\<close> for \<open>n\<close> more rounds; the result is \<open>None\<close> where the source returns
  \<^verbatim>\<open>false\<close> (line lost) and \<open>Some e_out\<close> where it returns \<^verbatim>\<open>true\<close>.
\<close>

fun irLoop :: "(nat \<Rightarrow> int) \<Rightarrow> nat \<Rightarrow> nat \<Rightarrow> real \<times> real \<Rightarrow> real \<times> real" where
  "irLoop analogRead i 0 acc = acc"
| "irLoop analogRead i (Suc n) (sm, wsum) =
     (let raw = analogRead i;
          v = real_of_int raw / 1023
      in irLoop analogRead (Suc i) n (sm + v, wsum + v * real i))"

definition computeIrError :: "(nat \<Rightarrow> int) \<Rightarrow> real option" where
  "computeIrError analogRead =
     (let (sm, wsum) = irLoop analogRead 0 8 (0, 0) in
      if sm < 0.01 then None
      else
        let pos = wsum / sm;
            center = 3.5;
            err_idx = pos - center;
            spacing = 0.010
        in Some (err_idx * spacing))"

subsection \<open>updateScheduler\<close>

text \<open>
  The three locals of \<^verbatim>\<open>updateScheduler\<close> (lines 88 to 90), as functions of the
  value \<open>now\<close> read from \<^verbatim>\<open>millis()\<close> and of the state.
\<close>

definition visionFresh :: "ulong \<Rightarrow> state \<Rightarrow> bool" where
  "visionFresh now st = (now - lastVisionMs st < 200)"

definition useVision :: "ulong \<Rightarrow> state \<Rightarrow> bool" where
  "useVision now st = (visionFresh now st \<and> lastValid st)"

definition effectiveLk :: "ulong \<Rightarrow> state \<Rightarrow> cfloat" where
  "effectiveLk now st = (if useVision now st then lastLk st else Finite 0)"

definition updateScheduler :: "ulong \<Rightarrow> state \<Rightarrow> state" where
  "updateScheduler now st =
     (let lk = effectiveLk now st in
      if \<not> useVision now st then
        st\<lparr>baseSpeed := 0.30, Kp := 0.70, Ki := 0, Kd := 0.10\<rparr>
      else
        let st1 =
          (if lk < Finite 0.35 then st\<lparr>baseSpeed := 0.25, Kp := 0.85, Ki := 0, Kd := 0.10\<rparr>
           else if lk < Finite 0.70 then st\<lparr>baseSpeed := 0.40, Kp := 0.60, Ki := 0, Kd := 0.12\<rparr>
           else st\<lparr>baseSpeed := 0.60, Kp := 0.45, Ki := 0, Kd := 0.16\<rparr>)
        in st1\<lparr>baseSpeed := clampf (baseSpeed st1) BASE_MIN BASE_MAX\<rparr>)"

subsection \<open>loop: the control tick\<close>

text \<open>
  Lines 157 to 168 of \<^verbatim>\<open>loop\<close>: the PID block.  It takes the result of
  \<^verbatim>\<open>computeIrError\<close> and \<^verbatim>\<open>dt\<close>, and gives the new state and the correction \<open>u\<close>.
\<close>

definition pidBlock :: "real option \<Rightarrow> real \<Rightarrow> state \<Rightarrow> state \<times> real" where
  "pidBlock hasLine dt st =
     (case hasLine of
        None \<Rightarrow> (st\<lparr>baseSpeed := baseSpeed st * 0.5, integ := 0, prevE := 0\<rparr>, 0)
      | Some e \<Rightarrow>
          (let integ' = integ st + e * dt;
               de = (e - prevE st) / dt;
               st1 = st\<lparr>integ := integ', prevE := e\<rparr>;
               u = Kp st1 * e + Ki st1 * integ st1 + Kd st1 * de
           in (st1, u)))"

text \<open>Lines 170 to 173: the two wheel commands handed to \<^verbatim>\<open>outputMotors\<close>.\<close>

definition mix :: "real \<Rightarrow> real \<Rightarrow> real \<times> real" where
  "mix base u =
     (let left = base - u;
          right = base + u
      in (clampf left (-1) 1, clampf right (-1) 1))"

text \<open>
  The part of \<^verbatim>\<open>loop\<close> after \<^verbatim>\<open>readVisionSerial()\<close> (lines 147 to 175).  Its inputs
  are the values read from \<^verbatim>\<open>micros()\<close> and \<^verbatim>\<open>millis()\<close> and the analog readings.
  The result is the new state and the pair given to \<^verbatim>\<open>outputMotors\<close>, or \<open>None\<close>
  when the function returns early because the period has not elapsed.
\<close>

definition controlTick :: "ulong \<Rightarrow> ulong \<Rightarrow> (nat \<Rightarrow> int) \<Rightarrow> state \<Rightarrow> state \<times> (real \<times> real) option" where
  "controlTick nowUs nowMs analogRead st =
     (if nowUs - lastControlUs st < CONTROL_DT_US then (st, None)
      else
        let dt = real (unat (nowUs - lastControlUs st)) / 1000000;
            st1 = st\<lparr>lastControlUs := nowUs\<rparr>;
            st2 = updateScheduler nowMs st1;
            hasLine = computeIrError analogRead;
            (st3, u) = pidBlock hasLine dt st2
        in (st3, Some (mix (baseSpeed st3) u)))"

text \<open>One call of \<^verbatim>\<open>loop\<close> with everything it reads from the outside.\<close>

record input =
  serial :: "(char \<times> ulong) list"
  micros :: ulong
  millis :: ulong
  analog :: "nat \<Rightarrow> int"

definition loop :: "input \<Rightarrow> state \<Rightarrow> state \<times> (real \<times> real) option" where
  "loop i st = controlTick (micros i) (millis i) (analog i) (readVisionSerial (serial i) st)"

text \<open>The Arduino runtime calls \<^verbatim>\<open>loop\<close> again and again; the state after a run.\<close>

fun run :: "input list \<Rightarrow> state \<Rightarrow> state" where
  "run [] st = st"
| "run (i # is) st = run is (fst (loop i st))"

section \<open>Views of the state used in the statements\<close>

text \<open>VisionSample: the three variables written by \<^verbatim>\<open>readVisionSerial\<close>.\<close>

definition vision :: "state \<Rightarrow> cfloat \<times> bool \<times> ulong" where
  "vision st = (lastLk st, lastValid st, lastVisionMs st)"

text \<open>The characters stored so far for the line being received: \<^verbatim>\<open>buf[0..idx-1]\<close>.\<close>

definition pending :: "state \<Rightarrow> string" where
  "pending st = take (idx st) (buf st)"

text \<open>
  The array has its 40 elements and the index is one at which the code may write.
  \<^verbatim>\<open>rxByte\<close> keeps this (lemmas \<open>rxByte_newline\<close> and \<open>rxByte_other\<close>), and it holds
  initially.
\<close>

definition bufOk :: "state \<Rightarrow> bool" where
  "bufOk st = (length (buf st) = 40 \<and> idx st \<le> 39)"

text \<open>
  What the newline branch of \<^verbatim>\<open>rxByte\<close> does to VisionSample, as a function of the
  stored characters; and what a character other than newline does to the stored
  characters.  Both are proved equal to the behaviour of \<^verbatim>\<open>rxByte\<close> below and serve
  the proofs only.
\<close>

definition lineEffect ::
  "ulong \<Rightarrow> string \<Rightarrow> cfloat \<times> bool \<times> ulong \<Rightarrow> cfloat \<times> bool \<times> ulong" where
  "lineEffect now l vs =
     (if take 2 l = ''L,'' then
        (case sscanf_L_f_d (cstr l) of
           (n, lk, v) \<Rightarrow>
             if n = 2 then (clampf lk (Finite 0) (Finite 1), v \<noteq> 0, now) else vs)
      else vs)"

definition frameByte :: "string \<Rightarrow> char \<Rightarrow> string" where
  "frameByte p c = (if length p < 39 then p @ [c] else [])"

text \<open>Serial input for the examples: the characters of a string, all handled at time \<open>now\<close>.\<close>

definition stamp :: "ulong \<Rightarrow> string \<Rightarrow> (char \<times> ulong) list" where
  "stamp now l = map (\<lambda>c. (c, now)) l"

text \<open>
  Input of one call of \<^verbatim>\<open>loop\<close> for the examples: no serial data, the two clock
  values, and the same raw reading \<open>r\<close> on all eight channels.
\<close>

definition tickIn :: "ulong \<Rightarrow> ulong \<Rightarrow> int \<Rightarrow> input" where
  "tickIn us ms r = \<lparr> serial = [], micros = us, millis = ms, analog = (\<lambda>_. r) \<rparr>"

section \<open>Auxiliary lemmas\<close>

subsection \<open>clampf and the clock\<close>

lemma clampf_unit:
  "lk \<noteq> NaN \<Longrightarrow>
   Finite 0 \<le> clampf lk (Finite 0) (Finite 1) \<and> clampf lk (Finite 0) (Finite 1) \<le> Finite 1"
  by (cases lk) (simp_all add: clampf_def)

lemma clampf_NaN: "clampf NaN (Finite 0) (Finite 1) = NaN"
  by (simp add: clampf_def)

lemma unit_interval_cfloat:
  "(Finite 0 \<le> x \<and> x \<le> Finite 1) = (\<exists>r. x = Finite r \<and> 0 \<le> r \<and> r \<le> 1)"
  by (cases x) simp_all

lemma fresh_nat:
  assumes "rx \<le> t" "t - rx < 2 ^ 32" "lastVisionMs st = of_nat rx"
  shows "visionFresh (of_nat t) st = (t - rx < 200)"
proof -
  have "(of_nat t :: ulong) - of_nat rx = of_nat (t - rx)" using assms(1) by simp
  moreover have "unat (of_nat (t - rx) :: ulong) = t - rx"
    using assms(2) by (simp add: unat_of_nat)
  ultimately show ?thesis
    by (simp add: visionFresh_def assms(3) word_less_nat_alt)
qed

subsection \<open>The receive buffer\<close>

lemma cstr_terminated:
  assumes "i < length b"
  shows "cstr (b[i := NUL]) = cstr (take i b)"
proof -
  have "b[i := NUL] = take i b @ NUL # drop (Suc i) b"
    using assms by (simp add: upd_conv_take_nth_drop)
  then show ?thesis
    by (auto simp add: cstr_def takeWhile_append takeWhile_eq_all_conv [THEN iffD2, symmetric])
qed

lemma prefix_terminated:
  assumes "i < length b" "2 \<le> length b"
  shows "(b[i := NUL] ! 0 = CHR ''L'' \<and> b[i := NUL] ! 1 = CHR '','') = (take 2 (take i b) = ''L,'')"
proof -
  have ne: "NUL \<noteq> CHR ''L''" "NUL \<noteq> CHR '',''" by (simp_all add: NUL_def)
  consider "i = 0" | "i = 1" | "2 \<le> i" by linarith
  then show ?thesis
  proof cases
    case 1
    then show ?thesis using assms ne by (cases b) auto
  next
    case 2
    then show ?thesis using assms ne
      by (cases b; cases "tl b") (auto simp: take_Suc_conv_app_nth)
  next
    case 3
    then have t: "take 2 (take i b) = take 2 b" by (simp add: min_def)
    have "take 2 b = [b ! 0, b ! 1]"
      using assms by (cases b; cases "tl b") auto
    with 3 t show ?thesis by auto
  qed
qed

lemma rxByte_newline:
  assumes "bufOk st"
  shows "vision (rxByte now (CHR 0x0A) st) = lineEffect now (pending st) (vision st)"
    and "pending (rxByte now (CHR 0x0A) st) = []"
    and "bufOk (rxByte now (CHR 0x0A) st)"
proof -
  have i: "idx st < length (buf st)" "2 \<le> length (buf st)"
    using assms by (simp_all add: bufOk_def)
  show "vision (rxByte now (CHR 0x0A) st) = lineEffect now (pending st) (vision st)"
    using cstr_terminated [OF i(1)] prefix_terminated [OF i]
    by (simp add: rxByte_def lineEffect_def pending_def vision_def Let_def split: prod.splits)
  show "pending (rxByte now (CHR 0x0A) st) = []"
    by (simp add: rxByte_def pending_def Let_def split: prod.splits)
  show "bufOk (rxByte now (CHR 0x0A) st)"
    using assms by (simp add: rxByte_def bufOk_def Let_def split: prod.splits)
qed

lemma rxByte_other:
  assumes "bufOk st" "c \<noteq> CHR 0x0A"
  shows "vision (rxByte now c st) = vision st"
    and "pending (rxByte now c st) = frameByte (pending st) c"
    and "bufOk (rxByte now c st)"
proof -
  show "vision (rxByte now c st) = vision st"
    using assms by (simp add: rxByte_def vision_def)
  have l: "length (pending st) = idx st"
    using assms by (simp add: pending_def bufOk_def)
  show "pending (rxByte now c st) = frameByte (pending st) c"
    using assms l
    by (auto simp add: rxByte_def pending_def frameByte_def bufOk_def take_Suc_conv_app_nth)
  show "bufOk (rxByte now c st)"
    using assms by (simp add: rxByte_def bufOk_def)
qed

lemma readVisionSerial_append:
  "readVisionSerial (xs @ ys) st = readVisionSerial ys (readVisionSerial xs st)"
  by (induction xs st rule: readVisionSerial.induct) simp_all

lemma feed_no_newline:
  assumes "bufOk st" "CHR 0x0A \<notin> fst ` set bs"
  shows "vision (readVisionSerial bs st) = vision st \<and>
         pending (readVisionSerial bs st) = foldl frameByte (pending st) (map fst bs) \<and>
         bufOk (readVisionSerial bs st)"
  using assms
proof (induction bs st rule: readVisionSerial.induct)
  case (1 st)
  then show ?case by simp
next
  case (2 c now rest st)
  then have c: "c \<noteq> CHR 0x0A" by auto
  from 2 have r: "CHR 0x0A \<notin> fst ` set rest" by auto
  note o = rxByte_other [OF "2.prems"(1) c, of now]
  from "2.IH" [OF o(3) r] o show ?case by simp
qed

lemma framed_drop:
  "foldl frameByte [] l = drop (40 * (length l div 40)) l"
proof (induction l rule: rev_induct)
  case Nil
  then show ?case by simp
next
  case (snoc c l)
  let ?k = "40 * (length l div 40)"
  have len: "length (drop ?k l) = length l mod 40"
    by (simp add: minus_mult_div_eq_mod mult.commute)
  have kle: "?k \<le> length l" by simp
  have lt: "length l mod 40 < 40" by simp
  show ?case
  proof (cases "length l mod 40 < 39")
    case True
    then have "Suc (length l) div 40 = length l div 40"
      by (simp add: div_Suc mod_Suc)
    with True snoc len kle show ?thesis
      by (simp add: frameByte_def)
  next
    case False
    with lt have m: "length l mod 40 = 39" by linarith
    then have d: "Suc (length l) div 40 = Suc (length l div 40)"
      by (simp add: div_Suc mod_Suc)
    have "length l = 40 * (length l div 40) + length l mod 40" by simp
    with m have "length l = 40 * (length l div 40) + 39" by simp
    then have "40 * Suc (length l div 40) = Suc (length l)" by simp
    with m snoc len d show ?thesis
      by (simp add: frameByte_def)
  qed
qed

lemma feed_line:
  assumes "bufOk st" "idx st = 0" "CHR 0x0A \<notin> fst ` set bs"
  shows "vision (readVisionSerial (bs @ [(CHR 0x0A, now)]) st) =
         lineEffect now (drop (40 * (length bs div 40)) (map fst bs)) (vision st)"
proof -
  from assms(2) have p: "pending st = []" by (simp add: pending_def)
  note f = feed_no_newline [OF assms(1) assms(3)]
  from f have b: "bufOk (readVisionSerial bs st)" by simp
  from f p have q: "pending (readVisionSerial bs st) = drop (40 * (length bs div 40)) (map fst bs)"
    using framed_drop [of "map fst bs"] by simp
  show ?thesis
    using rxByte_newline(1) [OF b, of now] q f
    by (simp add: readVisionSerial_append)
qed

lemma feed_short_line:
  assumes "bufOk st" "idx st = 0" "CHR 0x0A \<notin> fst ` set bs" "length bs \<le> 39"
  shows "vision (readVisionSerial (bs @ [(CHR 0x0A, now)]) st) =
         lineEffect now (map fst bs) (vision st)"
  using feed_line [OF assms(1-3), of now] assms(4) by simp

lemma bufOk_init: "bufOk init" "idx init = 0"
  by (simp_all add: bufOk_def init_def)

lemma set_stamp: "fst ` set (stamp now l) = set l" "length (stamp now l) = length l"
  "map fst (stamp now l) = l"
  by (simp_all add: stamp_def image_image comp_def)

subsection \<open>The scanner on a longer input\<close>

lemma while_stop:
  assumes "dropWhile P s \<noteq> []"
  shows "takeWhile P (s @ e) = takeWhile P s" and "dropWhile P (s @ e) = dropWhile P s @ e"
proof -
  from assms obtain x where x: "x \<in> set s" "\<not> P x"
    by (auto simp: dropWhile_eq_Nil_conv)
  show "takeWhile P (s @ e) = takeWhile P s" using x by (rule takeWhile_append1)
  show "dropWhile P (s @ e) = dropWhile P s @ e" using x by (rule dropWhile_append1)
qed

lemma while_all:
  assumes "dropWhile P s = []"
  shows "takeWhile P (s @ e) = s @ takeWhile P e" and "dropWhile P (s @ e) = dropWhile P e"
proof -
  from assms have a: "\<And>x. x \<in> set s \<Longrightarrow> P x"
    by (simp add: dropWhile_eq_Nil_conv)
  show "takeWhile P (s @ e) = s @ takeWhile P e" using a by (rule takeWhile_append2)
  show "dropWhile P (s @ e) = dropWhile P e" using a by (rule dropWhile_append2)
qed

lemma while_all_stop:
  assumes "dropWhile P s = []" "e = [] \<or> \<not> P (hd e)"
  shows "takeWhile P (s @ e) = takeWhile P s" and "dropWhile P (s @ e) = dropWhile P s @ e"
proof -
  from assms(2) have t: "takeWhile P e = []" and d: "dropWhile P e = e"
    by (cases e; auto)+
  from assms(1) have s: "takeWhile P s = s"
    by (simp add: takeWhile_eq_all_conv)
  have "takeWhile P (s @ e) = s @ takeWhile P e"
    by (rule while_all(1) [OF assms(1)])
  also have "\<dots> = s" by (simp only: t append_Nil2)
  finally show "takeWhile P (s @ e) = takeWhile P s" by (simp only: s)
  have "dropWhile P (s @ e) = dropWhile P e"
    by (rule while_all(2) [OF assms(1)])
  then show "dropWhile P (s @ e) = dropWhile P s @ e"
    by (simp only: d assms(1) append_Nil)
qed

lemma scanSign_append:
  "s \<noteq> [] \<Longrightarrow> scanSign (s @ e) = (fst (scanSign s), snd (scanSign s) @ e)"
  by (cases s) (simp_all add: scanSign_def)

lemma scanDecimal_nonempty: "scanDecimal s = Some (v, r) \<Longrightarrow> s \<noteq> []"
  by (auto simp: scanDecimal_def scanSign_def Let_def split: prod.splits if_splits)

lemma scanDecimal_append:
  assumes "scanDecimal s = Some (v, r)" "r \<noteq> [] \<or> e = [] \<or> \<not> isdigit (hd e)"
  shows "scanDecimal (s @ e) = Some (v, r @ e)"
proof -
  obtain neg s1 where ss: "scanSign s = (neg, s1)" by (cases "scanSign s")
  from assms(1) ss have ds: "takeWhile isdigit s1 \<noteq> []"
    and r: "r = dropWhile isdigit s1"
    and v: "v = (if neg then - int (digitsVal (takeWhile isdigit s1)) else int (digitsVal (takeWhile isdigit s1)))"
    by (auto simp: scanDecimal_def Let_def split: if_splits)
  have sa: "scanSign (s @ e) = (neg, s1 @ e)"
    using scanSign_append [OF scanDecimal_nonempty [OF assms(1)], of e] ss by simp
  have w: "takeWhile isdigit (s1 @ e) = takeWhile isdigit s1 \<and>
           dropWhile isdigit (s1 @ e) = dropWhile isdigit s1 @ e"
  proof (cases "dropWhile isdigit s1 = []")
    case True
    with assms(2) r have "e = [] \<or> \<not> isdigit (hd e)" by simp
    from while_all_stop [OF True this] show ?thesis by simp
  next
    case False
    from while_stop [OF False] show ?thesis by simp
  qed
  show ?thesis
    using sa w ds r v by (simp add: scanDecimal_def Let_def)
qed

lemma scanDecimal_append_any:
  assumes "scanDecimal s = Some (v, r)"
  shows "\<exists>v' r'. scanDecimal (s @ e) = Some (v', r')"
proof -
  obtain neg s1 where ss: "scanSign s = (neg, s1)" by (cases "scanSign s")
  from assms(1) ss have ds: "takeWhile isdigit s1 \<noteq> []"
    by (auto simp: scanDecimal_def Let_def split: if_splits)
  have sa: "scanSign (s @ e) = (neg, s1 @ e)"
    using scanSign_append [OF scanDecimal_nonempty [OF assms(1)], of e] ss by simp
  have "takeWhile isdigit (s1 @ e) \<noteq> []"
    using ds by (cases s1) (auto split: if_splits)
  then show ?thesis
    using sa by (simp add: scanDecimal_def Let_def)
qed

lemma scanDecimal_shorter: "scanDecimal s = Some (v, r) \<Longrightarrow> length r \<le> length s"
proof -
  assume a: "scanDecimal s = Some (v, r)"
  obtain neg s1 where ss: "scanSign s = (neg, s1)" by (cases "scanSign s")
  from a ss have r: "r = dropWhile isdigit s1"
    by (auto simp: scanDecimal_def Let_def split: if_splits)
  have "length s1 \<le> length s"
    using ss by (cases s) (auto simp: scanSign_def split: if_splits)
  moreover have "length (dropWhile isdigit s1) \<le> length s1"
    by (rule length_dropWhile_le)
  ultimately show ?thesis using r by simp
qed

lemma scanInt_Some:
  "scanInt s = Some (v, r) \<Longrightarrow> \<exists>n. scanDecimal s = Some (n, r) \<and> v = word_of_int n"
  by (auto simp: scanInt_def split: option.splits)

lemma scanInt_append:
  assumes "scanInt s = Some (v, r)" "r \<noteq> [] \<or> e = [] \<or> \<not> isdigit (hd e)"
  shows "scanInt (s @ e) = Some (v, r @ e)"
proof -
  from scanInt_Some [OF assms(1)] obtain n where
    n: "scanDecimal s = Some (n, r)" "v = word_of_int n" by blast
  from scanDecimal_append [OF n(1) assms(2)] n(2) show ?thesis
    by (simp add: scanInt_def)
qed

lemma scanInt_append_any:
  assumes "scanInt s = Some (v, r)"
  shows "\<exists>v' r'. scanInt (s @ e) = Some (v', r')"
proof -
  from scanInt_Some [OF assms(1)] obtain n where
    n: "scanDecimal s = Some (n, r)" by blast
  from scanDecimal_append_any [OF n, of e] show ?thesis
    by (auto simp: scanInt_def)
qed

lemma scanExp_append:
  assumes "scanExp isE s = Some (ex, r)" "r \<noteq> []"
  shows "scanExp isE (s @ e) = Some (ex, r @ e)"
proof (cases s)
  case Nil
  with assms show ?thesis by (simp add: scanExp_def)
next
  case (Cons c t)
  show ?thesis
  proof (cases "isE c")
    case True
    with assms Cons have "scanDecimal t = Some (ex, r)" by (auto simp: scanExp_def)
    from scanDecimal_append [OF this, of e] assms(2) True Cons show ?thesis
      by (auto simp: scanExp_def)
  next
    case False
    with assms Cons show ?thesis by (auto simp: scanExp_def)
  qed
qed

lemma scanExp_nonempty: "scanExp isE s = Some (ex, r) \<Longrightarrow> r \<noteq> [] \<Longrightarrow> s \<noteq> []"
  by (auto simp: scanExp_def)

lemma scanExp_shorter: "scanExp isE s = Some (ex, r) \<Longrightarrow> length r \<le> length s"
proof (cases s)
  case Nil
  assume "scanExp isE s = Some (ex, r)"
  with Nil show ?thesis by (simp add: scanExp_def)
next
  case (Cons c t)
  assume a: "scanExp isE s = Some (ex, r)"
  show ?thesis
  proof (cases "isE c")
    case True
    with a Cons have "scanDecimal t = Some (ex, r)" by (auto simp: scanExp_def)
    from scanDecimal_shorter [OF this] Cons show ?thesis by simp
  next
    case False
    with a Cons show ?thesis by (auto simp: scanExp_def)
  qed
qed

lemma scanFrac_append:
  assumes "snd (scanFrac isd s) \<noteq> []"
  shows "scanFrac isd (s @ e) = (fst (scanFrac isd s), snd (scanFrac isd s) @ e)"
proof (cases s)
  case Nil
  with assms show ?thesis by (simp add: scanFrac_def)
next
  case (Cons c t)
  show ?thesis
  proof (cases "c = CHR ''.''")
    case True
    with assms Cons have "dropWhile isd t \<noteq> []" by (simp add: scanFrac_def)
    from while_stop [OF this, of e] True Cons show ?thesis by (simp add: scanFrac_def)
  next
    case False
    with Cons show ?thesis by (simp add: scanFrac_def)
  qed
qed

lemma scanFrac_length:
  "length (fst (scanFrac isd s)) + length (snd (scanFrac isd s)) \<le> length s"
proof (cases s)
  case Nil
  then show ?thesis by (simp add: scanFrac_def)
next
  case (Cons c t)
  have "length (takeWhile isd t) + length (dropWhile isd t) = length t"
    by (metis length_append takeWhile_dropWhile_id)
  with Cons show ?thesis by (simp add: scanFrac_def)
qed

lemma scanNumber_parts:
  assumes "scanNumber isd val b isE eb s = Some (x, r)"
  obtains fp s3 ex where
    "scanFrac isd (dropWhile isd s) = (fp, s3)"
    "\<not> (takeWhile isd s = [] \<and> fp = [])"
    "scanExp isE s3 = Some (ex, r)"
proof -
  obtain fp s3 where sf: "scanFrac isd (dropWhile isd s) = (fp, s3)"
    by (cases "scanFrac isd (dropWhile isd s)")
  from assms sf obtain ex where
    "\<not> (takeWhile isd s = [] \<and> fp = [])" "scanExp isE s3 = Some (ex, r)"
    by (auto simp: scanNumber_def Let_def split: if_splits option.splits)
  with sf that show ?thesis by blast
qed

lemma scanNumber_shorter:
  assumes "scanNumber isd val b isE eb s = Some (x, r)"
  shows "length r < length s"
proof -
  from scanNumber_parts [OF assms] obtain fp s3 ex where
    sf: "scanFrac isd (dropWhile isd s) = (fp, s3)" and
    ne: "\<not> (takeWhile isd s = [] \<and> fp = [])" and
    se: "scanExp isE s3 = Some (ex, r)" by blast
  have 1: "length r \<le> length s3" using scanExp_shorter [OF se] .
  have 2: "length fp + length s3 \<le> length (dropWhile isd s)"
    using scanFrac_length [of isd "dropWhile isd s"] sf by simp
  have 3: "length (takeWhile isd s) + length (dropWhile isd s) = length s"
    by (metis length_append takeWhile_dropWhile_id)
  from ne have "0 < length (takeWhile isd s) + length fp" by auto
  with 1 2 3 show ?thesis by linarith
qed

lemma scanNumber_append:
  assumes "scanNumber isd val b isE eb s = Some (x, r)" "r \<noteq> []"
  shows "scanNumber isd val b isE eb (s @ e) = Some (x, r @ e)"
proof -
  from scanNumber_parts [OF assms(1)] obtain fp s3 ex where
    sf: "scanFrac isd (dropWhile isd s) = (fp, s3)" and
    ne: "\<not> (takeWhile isd s = [] \<and> fp = [])" and
    se: "scanExp isE s3 = Some (ex, r)" by blast
  have s3: "s3 \<noteq> []" using scanExp_nonempty [OF se assms(2)] .
  have s2: "dropWhile isd s \<noteq> []"
  proof
    assume a: "dropWhile isd s = []"
    from sf have "s3 = []" unfolding a by (simp add: scanFrac_def)
    with s3 show False by simp
  qed
  note w = while_stop [OF s2, of e]
  have fa: "scanFrac isd (dropWhile isd s @ e) = (fp, s3 @ e)"
    using scanFrac_append [of isd "dropWhile isd s" e] sf s3 by simp
  note ea = scanExp_append [OF se assms(2), of e]
  show ?thesis
    using assms(1) sf se ne w fa ea
    by (simp add: scanNumber_def Let_def)
qed

lemma matchWord_append:
  "matchWord kw s < length s \<Longrightarrow> matchWord kw (s @ e) = matchWord kw s"
  by (induction kw s rule: matchWord.induct) (auto split: if_splits)

lemma scanNanTail_append:
  assumes "scanNanTail s = Some (x, r)" "r \<noteq> []"
  shows "scanNanTail (s @ e) = Some (x, r @ e)"
proof (cases s)
  case Nil
  with assms show ?thesis by (simp add: scanNanTail_def)
next
  case (Cons c t)
  let ?P = "\<lambda>d. isdigit d \<or> isalpha d \<or> d = CHR ''_''"
  show ?thesis
  proof (cases "c = CHR ''(''")
    case True
    with assms(1) Cons obtain r' where d: "dropWhile ?P t = CHR '')'' # r'" and x: "x = NaN" "r = r'"
      by (auto simp: scanNanTail_def split: list.splits if_splits)
    then have "dropWhile ?P t \<noteq> []" by simp
    from while_stop(2) [OF this, of e] d x True Cons show ?thesis
      by (simp add: scanNanTail_def)
  next
    case False
    with assms Cons show ?thesis by (auto simp: scanNanTail_def)
  qed
qed

lemma scanNanTail_nonempty: "scanNanTail s = Some (x, r) \<Longrightarrow> r \<noteq> [] \<Longrightarrow> s \<noteq> []"
  by (auto simp: scanNanTail_def)

lemma hexPrefix_append: "2 \<le> length s \<Longrightarrow> hexPrefix (s @ e) = hexPrefix s"
  by (cases s; cases "tl s") (auto simp: hexPrefix_def)

lemma hexPrefix_length: "hexPrefix s \<Longrightarrow> 2 \<le> length s"
  by (cases s; cases "tl s") (auto simp: hexPrefix_def)

lemma scanSign_length: "scanSign s = (neg, s1) \<Longrightarrow> s1 \<noteq> [] \<Longrightarrow> s \<noteq> []"
  by (auto simp: scanSign_def)

lemma scanFloat_append:
  assumes "scanFloat s = Some (x, r)" "r \<noteq> []"
  shows "scanFloat (s @ e) = Some (x, r @ e)"
proof -
  obtain neg s1 where ss: "scanSign s = (neg, s1)" by (cases "scanSign s")
  have sa: "scanSign (s @ e) = (neg, s1 @ e)" if "s1 \<noteq> []"
    using scanSign_append [of s e] ss scanSign_length [OF ss that] by simp
  consider (inf) "0 < matchWord ''infinity'' s1"
    | (nan) "matchWord ''infinity'' s1 = 0" "0 < matchWord ''nan'' s1"
    | (hex) "matchWord ''infinity'' s1 = 0" "matchWord ''nan'' s1 = 0" "hexPrefix s1"
    | (dec) "matchWord ''infinity'' s1 = 0" "matchWord ''nan'' s1 = 0" "\<not> hexPrefix s1"
    by fastforce
  then show ?thesis
  proof cases
    case inf
    then have ne: "s1 \<noteq> []" by (cases s1) auto
    from assms(1) ss inf obtain n where
      n: "matchWord ''infinity'' s1 = n" "n = 8 \<or> n = 3" and
      x: "x = (if neg then NInf else PInf)" and r: "r = drop n s1"
      by (auto simp: scanFloat_def split: if_splits)
    from r assms(2) have l: "n < length s1" by simp
    with n have m: "matchWord ''infinity'' (s1 @ e) = n"
      using matchWord_append [of "''infinity''" s1 e] by simp
    from l have d: "drop n (s1 @ e) = drop n s1 @ e" by simp
    from n(2) m d x r sa [OF ne] show ?thesis
      by (auto simp: scanFloat_def)
  next
    case nan
    then have ne: "s1 \<noteq> []" by (cases s1) auto
    from assms(1) ss nan have n3: "matchWord ''nan'' s1 = 3"
      and t: "scanNanTail (drop 3 s1) = Some (x, r)"
      by (auto simp: scanFloat_def split: if_splits)
    from scanNanTail_nonempty [OF t assms(2)] have l: "3 < length s1" by simp
    from ne nan(1) have m1: "matchWord ''infinity'' (s1 @ e) = 0"
      using matchWord_append [of "''infinity''" s1 e] by simp
    from l n3 have m2: "matchWord ''nan'' (s1 @ e) = 3"
      using matchWord_append [of "''nan''" s1 e] by simp
    from l have d: "drop 3 (s1 @ e) = drop 3 s1 @ e" by simp
    from scanNanTail_append [OF t assms(2), of e] m1 m2 d sa [OF ne] show ?thesis
      by (simp add: scanFloat_def)
  next
    case hex
    from hexPrefix_length [OF hex(3)] have l: "2 \<le> length s1" .
    then have ne: "s1 \<noteq> []" by auto
    let ?f = "scanNumber isxdigit hexVal 16 (\<lambda>c. c = CHR ''p'' \<or> c = CHR ''P'') 2"
    from assms(1) ss hex obtain y where
      y: "?f (drop 2 s1) = Some (y, r)" and x: "x = Finite (if neg then - y else y)"
      by (auto simp: scanFloat_def split: option.splits)
    from ne hex(1) have m1: "matchWord ''infinity'' (s1 @ e) = 0"
      using matchWord_append [of "''infinity''" s1 e] by simp
    from ne hex(2) have m2: "matchWord ''nan'' (s1 @ e) = 0"
      using matchWord_append [of "''nan''" s1 e] by simp
    from l have d: "drop 2 (s1 @ e) = drop 2 s1 @ e" by simp
    from hexPrefix_append [OF l, of e] hex(3) have h: "hexPrefix (s1 @ e)" by simp
    from scanNumber_append [OF y assms(2), of e] m1 m2 d h x sa [OF ne] show ?thesis
      by (simp add: scanFloat_def)
  next
    case dec
    let ?f = "scanNumber isdigit digitsVal 10 (\<lambda>c. c = CHR ''e'' \<or> c = CHR ''E'') 10"
    from assms(1) ss dec obtain y where
      y: "?f s1 = Some (y, r)" and x: "x = Finite (if neg then - y else y)"
      by (auto simp: scanFloat_def split: option.splits)
    from scanNumber_shorter [OF y] assms(2) have l: "2 \<le> length s1"
      by (cases r) auto
    then have ne: "s1 \<noteq> []" by auto
    from ne dec(1) have m1: "matchWord ''infinity'' (s1 @ e) = 0"
      using matchWord_append [of "''infinity''" s1 e] by simp
    from ne dec(2) have m2: "matchWord ''nan'' (s1 @ e) = 0"
      using matchWord_append [of "''nan''" s1 e] by simp
    from hexPrefix_append [OF l, of e] dec(3) have h: "\<not> hexPrefix (s1 @ e)" by simp
    from scanNumber_append [OF y assms(2), of e] m1 m2 h x sa [OF ne] show ?thesis
      by (simp add: scanFloat_def)
  qed
qed

lemma sscanf_append:
  assumes "sscanf_L_f_d l = (2, lk, v)"
  shows "\<exists>v'. sscanf_L_f_d (l @ e) = (2, lk, v') \<and> (e = [] \<or> \<not> isdigit (hd e) \<longrightarrow> v' = v)"
proof -
  from assms obtain s1 where l: "l = CHR ''L'' # CHR '','' # s1"
    by (auto simp: sscanf_L_f_d_def EOF_def split: list.splits if_splits)
  from assms l have s2: "dropWhile isspace s1 \<noteq> []"
    by (auto simp: sscanf_L_f_d_def EOF_def Let_def simp del: dropWhile_eq_Nil_conv split: if_splits)
  from assms l s2 obtain s3 where f: "scanFloat (dropWhile isspace s1) = Some (lk, s3)"
    by (auto simp: sscanf_L_f_d_def Let_def split: option.splits list.splits if_splits)
  from assms l s2 f obtain s4 where s3: "s3 = CHR '','' # s4"
    by (auto simp: sscanf_L_f_d_def Let_def split: list.splits if_splits)
  from assms l s2 f s3 have s5: "dropWhile isspace s4 \<noteq> []"
    by (auto simp: sscanf_L_f_d_def Let_def simp del: dropWhile_eq_Nil_conv split: if_splits)
  from assms l s2 f s3 s5 obtain rest where i: "scanInt (dropWhile isspace s4) = Some (v, rest)"
    by (auto simp: sscanf_L_f_d_def Let_def simp del: dropWhile_eq_Nil_conv split: option.splits)
  have fa: "scanFloat (dropWhile isspace s1 @ e) = Some (lk, CHR '','' # s4 @ e)"
    using scanFloat_append [OF f, of e] s3 by simp
  note w1 = while_stop(2) [OF s2, of e]
  note w2 = while_stop(2) [OF s5, of e]
  from scanInt_append_any [OF i, of e] obtain v' r' where
    ia: "scanInt (dropWhile isspace s4 @ e) = Some (v', r')" by blast
  have r: "sscanf_L_f_d (l @ e) = (2, lk, v')"
    using l s2 s5 fa w1 w2 ia
    by (simp add: sscanf_L_f_d_def Let_def del: dropWhile_eq_Nil_conv)
  have "v' = v" if "e = [] \<or> \<not> isdigit (hd e)"
    using scanInt_append [OF i, of e] that ia by simp
  with r show ?thesis by blast
qed

lemma cstr_append:
  "\<exists>e. cstr (l @ x) = cstr l @ e \<and> (x = [] \<or> \<not> isdigit (hd x) \<longrightarrow> e = [] \<or> \<not> isdigit (hd e))"
proof (cases "NUL \<in> set l")
  case True
  then have "cstr (l @ x) = cstr l"
    by (simp add: cstr_def takeWhile_append1 [where P = "\<lambda>c. c \<noteq> NUL"])
  then show ?thesis by simp
next
  case False
  then have a: "\<And>c. c \<in> set l \<Longrightarrow> c \<noteq> NUL" by blast
  have t: "takeWhile (\<lambda>c. c \<noteq> NUL) l = l"
    by (rule takeWhile_eq_all_conv [THEN iffD2]) (use a in blast)
  have u: "takeWhile (\<lambda>c. c \<noteq> NUL) (l @ x) = l @ takeWhile (\<lambda>c. c \<noteq> NUL) x"
    using a by (rule takeWhile_append2)
  have c: "cstr (l @ x) = cstr l @ cstr x"
    unfolding cstr_def by (simp only: u t)
  have "cstr x = [] \<or> \<not> isdigit (hd (cstr x))" if "x = [] \<or> \<not> isdigit (hd x)"
    using that by (cases x) (auto simp: cstr_def)
  with c show ?thesis by blast
qed

subsection \<open>Example lines\<close>

lemmas scan_defs = sscanf_L_f_d_def scanFloat_def scanInt_def scanDecimal_def scanSign_def
  scanFrac_def scanExp_def scanNumber_def scanNanTail_def hexPrefix_def sameLetter_def
  isspace_def isdigit_def isxdigit_def isalpha_def xdigitVal_def hexVal_def digitsVal_def EOF_def

lemma malformed_examples:
  "take 2 ''X,0.5,1'' \<noteq> ''L,''"
  "fst (sscanf_L_f_d (cstr ''L,abc,1'')) \<noteq> 2"
  "fst (sscanf_L_f_d (cstr ''L,0.5'')) \<noteq> 2"
  "fst (sscanf_L_f_d (cstr ''L,0.5,x'')) \<noteq> 2"
  by (simp_all add: scan_defs cstr_def NUL_def)

lemma accepted_examples:
  "lineEffect now ''L,0.42,1'' vs = (Finite 0.42, True, now)"
  "lineEffect now ''L,1.5,0'' vs = (Finite 1, False, now)"
  "lineEffect now ''L,0.5,1,extra'' vs = (Finite 0.5, True, now)"
  "lineEffect now ''L,0.5,1junk'' vs = (Finite 0.5, True, now)"
  "lineEffect now ''L,nan,1'' vs = (NaN, True, now)"
  by (simp_all add: lineEffect_def scan_defs cstr_def NUL_def clampf_def)

lemma parsed_line_effect:
  assumes "bufOk st" and "take 2 (pending st) = ''L,''"
    and "sscanf_L_f_d (cstr (pending st)) = (2, lk, v)"
  shows "vision (rxByte now (CHR 0x0A) st) = (clampf lk (Finite 0) (Finite 1), v \<noteq> 0, now)"
    and "lk \<noteq> NaN \<Longrightarrow>
         Finite 0 \<le> lastLk (rxByte now (CHR 0x0A) st) \<and> lastLk (rxByte now (CHR 0x0A) st) \<le> Finite 1"
proof -
  from rxByte_newline(1) [OF assms(1), of now] assms(2,3)
  show e: "vision (rxByte now (CHR 0x0A) st) = (clampf lk (Finite 0) (Finite 1), v \<noteq> 0, now)"
    by (simp add: lineEffect_def)
  then have "lastLk (rxByte now (CHR 0x0A) st) = clampf lk (Finite 0) (Finite 1)"
    by (simp add: vision_def)
  then show "lk \<noteq> NaN \<Longrightarrow>
      Finite 0 \<le> lastLk (rxByte now (CHR 0x0A) st) \<and> lastLk (rxByte now (CHR 0x0A) st) \<le> Finite 1"
    using clampf_unit [of lk] by simp
qed

lemma parsed_examples:
  "vision (readVisionSerial (stamp now ''L,0.42,1'' @ [(CHR 0x0A, now)]) init) = (Finite 0.42, True, now)"
  "vision (readVisionSerial (stamp now ''L,1.5,0'' @ [(CHR 0x0A, now)]) init) = (Finite 1, False, now)"
  "vision (readVisionSerial (stamp now ''L,0.5,1,extra'' @ [(CHR 0x0A, now)]) init) = (Finite 0.5, True, now)"
  "vision (readVisionSerial (stamp now ''L,0.5,1junk'' @ [(CHR 0x0A, now)]) init) = (Finite 0.5, True, now)"
  "vision (readVisionSerial (stamp now ''L,nan,1'' @ [(CHR 0x0A, now)]) init) = (NaN, True, now)"
  using feed_short_line [OF bufOk_init, of "stamp now ''L,0.42,1''" now]
    feed_short_line [OF bufOk_init, of "stamp now ''L,1.5,0''" now]
    feed_short_line [OF bufOk_init, of "stamp now ''L,0.5,1,extra''" now]
    feed_short_line [OF bufOk_init, of "stamp now ''L,0.5,1junk''" now]
    feed_short_line [OF bufOk_init, of "stamp now ''L,nan,1''" now]
  by (simp_all add: set_stamp accepted_examples)

lemma replicate_40: "replicate 40 c = c # c # replicate 38 c"
  by (simp add: numeral_eq_Suc)

subsection \<open>The control tick\<close>

lemma controlTick_lastLk: "lastLk (fst (controlTick nowUs nowMs ar st)) = lastLk st"
  by (simp add: controlTick_def updateScheduler_def pidBlock_def Let_def
      split: prod.splits option.splits)

lemma irLoop_zero:
  "(\<And>j. i \<le> j \<Longrightarrow> j < i + n \<Longrightarrow> analogRead j = 0) \<Longrightarrow>
   irLoop analogRead i n (s, w) = (s, w)"
  by (induction n arbitrary: i) (simp_all add: Let_def)

lemma all_zero_lost:
  assumes "\<And>i. i < 8 \<Longrightarrow> analogRead i = 0"
  shows "computeIrError analogRead = None"
proof -
  have "irLoop analogRead 0 8 (0, 0) = (0, 0)"
    by (rule irLoop_zero) (simp add: assms)
  then show ?thesis by (simp add: computeIrError_def)
qed

lemma irLoop_const:
  "irLoop (\<lambda>_. r) i n (s, w) =
     (s + real n * (real_of_int r / 1023),
      w + (real_of_int r / 1023) * (\<Sum>j = i..<i + n. real j))"
proof (induction n arbitrary: i s w)
  case 0
  then show ?case by simp
next
  case (Suc n)
  have "(\<Sum>j = i..<i + Suc n. real j) = real i + (\<Sum>j = Suc i..<Suc i + n. real j)"
    by (simp add: sum.atLeast_Suc_lessThan)
  then show ?case
    by (simp add: Suc.IH Let_def algebra_simps)
qed

lemma centred_line: "computeIrError (\<lambda>_. 512) = Some 0"
proof -
  have s: "(\<Sum>j = 0..<0 + 8. real j) = 28"
    by (simp add: eval_nat_numeral)
  have "irLoop (\<lambda>_. 512) 0 8 (0, 0) = (8 * (512 / 1023), (512 / 1023) * 28)"
    unfolding irLoop_const s by simp
  then show ?thesis by (simp add: computeIrError_def)
qed

lemma tick_present:
  "lastValid st = False \<Longrightarrow> \<not> us - lastControlUs st < 5000 \<Longrightarrow>
   baseSpeed (fst (loop (tickIn us ms 512) st)) = 0.30 \<and>
   lastValid (fst (loop (tickIn us ms 512) st)) = False \<and>
   lastControlUs (fst (loop (tickIn us ms 512) st)) = us"
  by (simp add: loop_def tickIn_def controlTick_def CONTROL_DT_US_def centred_line pidBlock_def
      updateScheduler_def useVision_def Let_def)

lemma tick_lost:
  "lastValid st = False \<Longrightarrow> \<not> us - lastControlUs st < 5000 \<Longrightarrow>
   baseSpeed (fst (loop (tickIn us ms 0) st)) = 0.15 \<and>
   lastValid (fst (loop (tickIn us ms 0) st)) = False \<and>
   lastControlUs (fst (loop (tickIn us ms 0) st)) = us"
  by (simp add: loop_def tickIn_def controlTick_def CONTROL_DT_US_def all_zero_lost pidBlock_def
      updateScheduler_def useVision_def Let_def)

lemma updateScheduler_Ki: "Ki (updateScheduler now st) = 0"
  by (simp add: updateScheduler_def Let_def)

lemma rxByte_Ki: "Ki (rxByte now c st) = Ki st"
  by (simp add: rxByte_def Let_def split: prod.splits)

lemma readVisionSerial_Ki: "Ki (readVisionSerial bs st) = Ki st"
  by (induction bs st rule: readVisionSerial.induct) (simp_all add: rxByte_Ki)

lemma controlTick_Ki: "Ki st = 0 \<Longrightarrow> Ki (fst (controlTick nowUs nowMs ar st)) = 0"
  by (simp add: controlTick_def pidBlock_def updateScheduler_Ki Let_def
      split: prod.splits option.splits)

lemma run_Ki: "Ki st = 0 \<Longrightarrow> Ki (run is st) = 0"
  by (induction "is" arbitrary: st) (simp_all add: loop_def controlTick_Ki readVisionSerial_Ki)

section \<open>The claims\<close>

subsection \<open>C1: line loss\<close>

text \<open>
  C1 as stated: on line loss \<open>u = 0\<close> and the base speed is halved once per tick, and the
  halving compounds, so that after \<open>k\<close> consecutive lost ticks the commanded base speed
  is the speed before the loss times \<open>(1/2)^k\<close>.

  The compounding does not hold.  \<^verbatim>\<open>loop\<close> calls \<^verbatim>\<open>updateScheduler\<close> at the start of
  every tick, which assigns \<^verbatim>\<open>baseSpeed\<close> anew before the PID block halves it.  Run from
  the initial state: a first tick with the line centred (all channels 512) leaves the
  base speed at 0.30; a first lost tick (all channels 0) gives 0.15; a second lost
  tick gives 0.15 again, not \<open>0.30 * (1/2)^2 = 0.075\<close>.
\<close>

theorem halving_counterexample:
  "baseSpeed (run [tickIn 5000 5 512] init) = 0.30 \<and>
   baseSpeed (run [tickIn 5000 5 512, tickIn 10000 10 0] init) = 0.15 \<and>
   baseSpeed (run [tickIn 5000 5 512, tickIn 10000 10 0, tickIn 15000 15 0] init) = 0.15 \<and>
   baseSpeed (run [tickIn 5000 5 512, tickIn 10000 10 0, tickIn 15000 15 0] init) \<noteq>
   baseSpeed (run [tickIn 5000 5 512] init) * (1 / 2) ^ 2"
proof -
  let ?s1 = "fst (loop (tickIn 5000 5 512) init)"
  let ?s2 = "fst (loop (tickIn 10000 10 0) ?s1)"
  let ?s3 = "fst (loop (tickIn 15000 15 0) ?s2)"
  have 1: "baseSpeed ?s1 = 0.30 \<and> lastValid ?s1 = False \<and> lastControlUs ?s1 = 5000"
    by (rule tick_present) (simp_all add: init_def)
  then have 2: "baseSpeed ?s2 = 0.15 \<and> lastValid ?s2 = False \<and> lastControlUs ?s2 = 10000"
    by (intro tick_lost) simp_all
  then have 3: "baseSpeed ?s3 = 0.15 \<and> lastValid ?s3 = False \<and> lastControlUs ?s3 = 15000"
    by (intro tick_lost) simp_all
  from 1 2 3 show ?thesis by (simp add: power2_eq_square)
qed

text \<open>
  C1 as amended: when all eight readings are zero the line sensor reports line-lost,
  and a tick that runs then sets \<open>integ\<close> and \<open>prevE\<close> to 0, uses the correction
  \<open>u = 0\<close>, and commands half of the base speed that the gain scheduler selected in
  that same tick.  The scheduled speed does not depend on the base speed left by the
  tick before, so the halving does not compound across consecutive lost ticks.
\<close>

theorem lost_tick_halves_scheduled:
  assumes "\<not> nowUs - lastControlUs st < CONTROL_DT_US"
    and "\<forall>i<8. analogRead i = 0"
  shows "computeIrError analogRead = None \<and>
         baseSpeed (fst (controlTick nowUs nowMs analogRead st)) =
           baseSpeed (updateScheduler nowMs st) * (1 / 2) \<and>
         integ (fst (controlTick nowUs nowMs analogRead st)) = 0 \<and>
         prevE (fst (controlTick nowUs nowMs analogRead st)) = 0 \<and>
         snd (controlTick nowUs nowMs analogRead st) =
           Some (mix (baseSpeed (updateScheduler nowMs st) * (1 / 2)) 0) \<and>
         baseSpeed (updateScheduler nowMs (st\<lparr>baseSpeed := b\<rparr>)) =
           baseSpeed (updateScheduler nowMs st)"
proof -
  from assms(2) have l: "computeIrError analogRead = None"
    by (intro all_zero_lost) simp
  have u: "baseSpeed (updateScheduler nowMs (st\<lparr>lastControlUs := nowUs\<rparr>)) =
           baseSpeed (updateScheduler nowMs st)"
    by (simp add: updateScheduler_def useVision_def visionFresh_def effectiveLk_def Let_def)
  have b: "baseSpeed (updateScheduler nowMs (st\<lparr>baseSpeed := b\<rparr>)) =
           baseSpeed (updateScheduler nowMs st)"
    by (simp add: updateScheduler_def useVision_def visionFresh_def effectiveLk_def Let_def)
  from assms(1) l u b show ?thesis
    by (simp add: controlTick_def pidBlock_def Let_def)
qed

theorem lost_tick_halves_scheduled_witness:
  "\<not> 5000 - lastControlUs init < CONTROL_DT_US \<and>
   computeIrError (\<lambda>_. 0) = None \<and>
   baseSpeed (fst (controlTick 5000 5 (\<lambda>_. 0) init)) = 0.15 \<and>
   snd (controlTick 5000 5 (\<lambda>_. 0) init) = Some (0.15, 0.15)"
proof -
  have h: "\<not> 5000 - lastControlUs init < CONTROL_DT_US" "\<forall>i<8. (\<lambda>_. 0 :: int) i = 0"
    by (simp_all add: init_def CONTROL_DT_US_def)
  have s: "baseSpeed (updateScheduler 5 init) = 0.30"
    by (simp add: updateScheduler_def useVision_def init_def)
  from lost_tick_halves_scheduled [OF h, of 5] h s show ?thesis
    by (simp add: mix_def clampf_def Let_def)
qed

subsection \<open>C2: lines longer than the buffer\<close>

text \<open>
  C2 as stated: a line that exceeds the buffer before its newline is dropped as a
  whole; nothing in it, its tail after the overflow point included, can update
  VisionSample when the newline is consumed.

  This fails for the tail.  On overflow the code sets \<^verbatim>\<open>idx = 0\<close> and goes on storing
  the characters that follow.  A line of 40 times \<^verbatim>\<open>x\<close> followed by \<^verbatim>\<open>L,0.5,1\<close> is 47
  characters long, and its newline updates VisionSample from the tail.
\<close>

theorem overlong_counterexample:
  "length (replicate 40 (CHR ''x'') @ ''L,0.5,1'') > 39 \<and>
   vision init = (Finite 0, False, 0) \<and>
   vision (readVisionSerial
     (stamp 1234 (replicate 40 (CHR ''x'') @ ''L,0.5,1'') @ [(CHR 0x0A, 1234)]) init) =
   (Finite 0.5, True, 1234)"
proof -
  have n: "CHR 0x0A \<notin> fst ` set (stamp 1234 (replicate 40 (CHR ''x'') @ ''L,0.5,1''))"
    by (simp add: set_stamp)
  have d: "drop (40 * (length (stamp 1234 (replicate 40 (CHR ''x'') @ ''L,0.5,1'')) div 40))
             (map fst (stamp 1234 (replicate 40 (CHR ''x'') @ ''L,0.5,1''))) = ''L,0.5,1''"
    by (simp add: set_stamp)
  have e: "lineEffect 1234 ''L,0.5,1'' (vision init) = (Finite 0.5, True, 1234)"
    by (simp add: lineEffect_def cstr_def NUL_def scan_defs clampf_def)
  show ?thesis
    using feed_line [OF bufOk_init n, of 1234] d e
    by (simp add: vision_def init_def)
qed

text \<open>
  C2 as amended: when a character other than newline arrives while 39 characters are
  stored, the index is reset to 0 and VisionSample is left as it is: the 39 stored
  characters and the arriving one are dropped.  The characters after that are stored
  as the start of a new line.  So a line without its newline, of any length, received
  from an empty buffer acts on VisionSample exactly as its tail after the last full
  group of 40 characters would, sent as a line of its own: that tail is parsed when the
  newline arrives.
\<close>

theorem overlong_tail:
  "(idx st = 39 \<and> c \<noteq> CHR 0x0A \<longrightarrow>
      idx (rxByte now c st) = 0 \<and> vision (rxByte now c st) = vision st) \<and>
   (bufOk st \<and> idx st = 0 \<and> CHR 0x0A \<notin> fst ` set bs \<longrightarrow>
      vision (readVisionSerial (bs @ [(CHR 0x0A, now)]) st) =
      vision (readVisionSerial (drop (40 * (length bs div 40)) bs @ [(CHR 0x0A, now)]) st))"
proof (rule conjI; rule impI)
  assume "idx st = 39 \<and> c \<noteq> CHR 0x0A"
  then show "idx (rxByte now c st) = 0 \<and> vision (rxByte now c st) = vision st"
    by (simp add: rxByte_def vision_def)
next
  let ?k = "40 * (length bs div 40)"
  assume a: "bufOk st \<and> idx st = 0 \<and> CHR 0x0A \<notin> fst ` set bs"
  then have b: "bufOk st" and i: "idx st = 0" and n: "CHR 0x0A \<notin> fst ` set bs" by simp_all
  from n have n': "CHR 0x0A \<notin> fst ` set (drop ?k bs)"
    using set_drop_subset [of ?k bs] by auto
  have l: "length (drop ?k bs) \<le> 39"
  proof -
    have "length (drop ?k bs) = length bs mod 40"
      by (simp add: minus_mult_div_eq_mod mult.commute)
    moreover have "length bs mod 40 < 40" by simp
    ultimately show ?thesis by linarith
  qed
  show "vision (readVisionSerial (bs @ [(CHR 0x0A, now)]) st) =
        vision (readVisionSerial (drop ?k bs @ [(CHR 0x0A, now)]) st)"
    using feed_line [OF b i n, of now] feed_short_line [OF b i n' l, of now]
    by (simp add: drop_map)
qed

theorem overlong_tail_witness:
  "idx (init\<lparr>idx := 39\<rparr>) = 39 \<and> CHR ''y'' \<noteq> CHR 0x0A \<and>
   idx (rxByte 7 (CHR ''y'') (init\<lparr>idx := 39\<rparr>)) = 0 \<and>
   bufOk init \<and> idx init = 0 \<and>
   CHR 0x0A \<notin> fst ` set (stamp 1234 (replicate 40 (CHR ''x'') @ ''L,0.5,1'')) \<and>
   vision (readVisionSerial
     (stamp 1234 (replicate 40 (CHR ''x'') @ ''L,0.5,1'') @ [(CHR 0x0A, 1234)]) init) =
   vision (readVisionSerial (stamp 1234 ''L,0.5,1'' @ [(CHR 0x0A, 1234)]) init)"
proof -
  have h1: "idx (init\<lparr>idx := 39\<rparr>) = 39 \<and> CHR ''y'' \<noteq> CHR 0x0A" by simp
  have h2: "bufOk init \<and> idx init = 0 \<and>
            CHR 0x0A \<notin> fst ` set (stamp 1234 (replicate 40 (CHR ''x'') @ ''L,0.5,1''))"
    by (simp add: bufOk_init set_stamp)
  have d: "drop (40 * (length (stamp 1234 (replicate 40 (CHR ''x'') @ ''L,0.5,1'')) div 40))
             (stamp 1234 (replicate 40 (CHR ''x'') @ ''L,0.5,1'')) = stamp 1234 ''L,0.5,1''"
    by (simp add: stamp_def)
  from overlong_tail [where st = "init\<lparr>idx := 39\<rparr>" and c = "CHR ''y''" and now = 7] h1
  have c1: "idx (rxByte 7 (CHR ''y'') (init\<lparr>idx := 39\<rparr>)) = 0" by blast
  from overlong_tail [where st = init and now = 1234
      and bs = "stamp 1234 (replicate 40 (CHR ''x'') @ ''L,0.5,1'')"] h2
  have c2: "vision (readVisionSerial
     (stamp 1234 (replicate 40 (CHR ''x'') @ ''L,0.5,1'') @ [(CHR 0x0A, 1234)]) init) =
     vision (readVisionSerial (drop (40 * (length (stamp 1234 (replicate 40 (CHR ''x'') @ ''L,0.5,1'')) div 40))
             (stamp 1234 (replicate 40 (CHR ''x'') @ ''L,0.5,1'')) @ [(CHR 0x0A, 1234)]) init)"
    by blast
  from h1 h2 c1 c2 show ?thesis unfolding d by blast
qed

subsection \<open>C3: the gain schedule\<close>

text \<open>
  C3: under trust (\<open>useVision\<close>) and for a lookahead value in [0,1], the base speed set
  by \<^verbatim>\<open>updateScheduler\<close> lies in [\<open>BASE_MIN\<close>, \<open>BASE_MAX\<close>]; the bands are chosen with
  strict less-than: below 0.35 the low band (speed 0.25, Kp 0.85, Kd 0.10), from 0.35
  and below 0.70 the mid band (speed 0.40, Kp 0.60, Kd 0.12), from 0.70 the high band
  (speed 0.60, Kp 0.45, Kd 0.16).  The value 0.35 itself is in the mid band.
\<close>

theorem scheduler_bands:
  assumes "useVision now st" and "Finite 0 \<le> lastLk st" and "lastLk st \<le> Finite 1"
  shows "BASE_MIN \<le> baseSpeed (updateScheduler now st) \<and>
         baseSpeed (updateScheduler now st) \<le> BASE_MAX \<and>
         (lastLk st < Finite 0.35 \<longrightarrow>
            baseSpeed (updateScheduler now st) = 0.25 \<and> Kp (updateScheduler now st) = 0.85 \<and>
            Kd (updateScheduler now st) = 0.10) \<and>
         (Finite 0.35 \<le> lastLk st \<and> lastLk st < Finite 0.70 \<longrightarrow>
            baseSpeed (updateScheduler now st) = 0.40 \<and> Kp (updateScheduler now st) = 0.60 \<and>
            Kd (updateScheduler now st) = 0.12) \<and>
         (Finite 0.70 \<le> lastLk st \<longrightarrow>
            baseSpeed (updateScheduler now st) = 0.60 \<and> Kp (updateScheduler now st) = 0.45 \<and>
            Kd (updateScheduler now st) = 0.16)"
proof -
  from assms(2,3) obtain r where r: "lastLk st = Finite r" "0 \<le> r" "r \<le> 1"
    using unit_interval_cfloat [of "lastLk st"] by blast
  with assms(1) show ?thesis
    by (simp add: updateScheduler_def effectiveLk_def clampf_def BASE_MIN_def BASE_MAX_def Let_def)
qed

theorem scheduler_bands_witness:
  "useVision 100 (init\<lparr>lastLk := Finite 0.35, lastValid := True\<rparr>) \<and>
   baseSpeed (updateScheduler 100 (init\<lparr>lastLk := Finite 0.35, lastValid := True\<rparr>)) = 0.40 \<and>
   useVision 100 (init\<lparr>lastLk := Finite 0.2, lastValid := True\<rparr>) \<and>
   baseSpeed (updateScheduler 100 (init\<lparr>lastLk := Finite 0.2, lastValid := True\<rparr>)) = 0.25 \<and>
   useVision 100 (init\<lparr>lastLk := Finite 0.7, lastValid := True\<rparr>) \<and>
   baseSpeed (updateScheduler 100 (init\<lparr>lastLk := Finite 0.7, lastValid := True\<rparr>)) = 0.60"
proof -
  have u: "useVision 100 (init\<lparr>lastLk := x, lastValid := True\<rparr>)" for x
    by (simp add: useVision_def visionFresh_def init_def)
  have m: "baseSpeed (updateScheduler 100 (init\<lparr>lastLk := Finite 0.35, lastValid := True\<rparr>)) = 0.40"
    using scheduler_bands [OF u [of "Finite 0.35"]] by simp
  have l: "baseSpeed (updateScheduler 100 (init\<lparr>lastLk := Finite 0.2, lastValid := True\<rparr>)) = 0.25"
    using scheduler_bands [OF u [of "Finite 0.2"]] by simp
  have h: "baseSpeed (updateScheduler 100 (init\<lparr>lastLk := Finite 0.7, lastValid := True\<rparr>)) = 0.60"
    using scheduler_bands [OF u [of "Finite 0.7"]] by simp
  from u m l h show ?thesis by blast
qed

subsection \<open>C4: trust in the vision sample\<close>

text \<open>
  C4: at every tick vision is trusted exactly when the last sample is fresh and valid,
  \<open>useVision = (now - lastVisionMs < 200 \<and> lastValid)\<close>, and the lookahead value used
  is \<open>lastLk\<close> when trusted and 0 otherwise.  A sample received 201 ms ago is not
  trusted, whatever \<open>lastValid\<close> is; a valid sample received 199 ms ago is trusted.
  The subtraction is the one of \<^verbatim>\<open>unsigned long\<close>; as long as the true time since the
  sample is below \<open>2^32\<close> ms it is that time, also when \<^verbatim>\<open>millis()\<close> has wrapped around.
\<close>

theorem mode_arbiter:
  "useVision now st = (now - lastVisionMs st < 200 \<and> lastValid st) \<and>
   effectiveLk now st = (if useVision now st then lastLk st else Finite 0) \<and>
   (lastVisionMs st = now - 201 \<longrightarrow> \<not> useVision now st) \<and>
   (lastVisionMs st = now - 199 \<and> lastValid st \<longrightarrow> useVision now st) \<and>
   (rx \<le> t \<and> t - rx < 2 ^ 32 \<and> lastVisionMs st = of_nat rx \<longrightarrow>
      useVision (of_nat t) st = (t - rx < 200 \<and> lastValid st))"
  using fresh_nat [of rx t st]
  by (auto simp add: useVision_def visionFresh_def effectiveLk_def)

theorem mode_arbiter_witness:
  "lastVisionMs (init\<lparr>lastVisionMs := 1000 - 201, lastValid := True\<rparr>) = 1000 - 201 \<and>
   \<not> useVision 1000 (init\<lparr>lastVisionMs := 1000 - 201, lastValid := True\<rparr>) \<and>
   lastVisionMs (init\<lparr>lastVisionMs := 1000 - 199, lastValid := True\<rparr>) = 1000 - 199 \<and>
   lastValid (init\<lparr>lastVisionMs := 1000 - 199, lastValid := True\<rparr>) \<and>
   useVision 1000 (init\<lparr>lastVisionMs := 1000 - 199, lastValid := True\<rparr>) \<and>
   (4294967000 :: nat) \<le> 4294967396 \<and> (4294967396 :: nat) - 4294967000 < 2 ^ 32 \<and>
   lastVisionMs (init\<lparr>lastVisionMs := of_nat 4294967000, lastValid := True\<rparr>) = of_nat 4294967000 \<and>
   \<not> useVision (of_nat 4294967396) (init\<lparr>lastVisionMs := of_nat 4294967000, lastValid := True\<rparr>)"
proof -
  have a: "\<not> useVision 1000 (init\<lparr>lastVisionMs := 1000 - 201, lastValid := True\<rparr>)"
    using mode_arbiter [of 1000 "init\<lparr>lastVisionMs := 1000 - 201, lastValid := True\<rparr>"]
    by simp
  have b: "useVision 1000 (init\<lparr>lastVisionMs := 1000 - 199, lastValid := True\<rparr>)"
    using mode_arbiter [of 1000 "init\<lparr>lastVisionMs := 1000 - 199, lastValid := True\<rparr>"]
    by simp
  have c: "\<not> useVision (of_nat 4294967396)
             (init\<lparr>lastVisionMs := of_nat 4294967000, lastValid := True\<rparr>)"
    using mode_arbiter [of _ "init\<lparr>lastVisionMs := of_nat 4294967000, lastValid := True\<rparr>"
        4294967000 4294967396]
    by simp
  from a b c show ?thesis by simp
qed

subsection \<open>C5: malformed lines\<close>

text \<open>
  C5 as stated: every malformed serial line (wrong prefix, or fields that
  \<^verbatim>\<open>sscanf\<close> does not parse) leaves VisionSample (\<open>lastLk\<close>, \<open>lastValid\<close>,
  \<open>lastVisionMs\<close>) as it was.

  This fails for a line longer than the buffer.  The line of 40 times \<^verbatim>\<open>#\<close> followed
  by \<^verbatim>\<open>L,0.9,1\<close> has a wrong prefix, and \<^verbatim>\<open>sscanf\<close> assigns nothing from it; but the
  overflow resets the index, the tail \<^verbatim>\<open>L,0.9,1\<close> is what is stored when the newline
  arrives, and VisionSample becomes (0.9, true, now).
\<close>

theorem malformed_overlong_counterexample:
  "take 2 (replicate 40 (CHR ''#'') @ ''L,0.9,1'') \<noteq> ''L,'' \<and>
   fst (sscanf_L_f_d (cstr (replicate 40 (CHR ''#'') @ ''L,0.9,1''))) \<noteq> 2 \<and>
   vision init = (Finite 0, False, 0) \<and>
   vision (readVisionSerial
     (stamp 777 (replicate 40 (CHR ''#'') @ ''L,0.9,1'') @ [(CHR 0x0A, 777)]) init) =
   (Finite 0.9, True, 777)"
proof -
  have p: "take 2 (replicate 40 (CHR ''#'') @ ''L,0.9,1'') \<noteq> ''L,''"
    by (simp add: replicate_40)
  have q: "fst (sscanf_L_f_d (cstr (replicate 40 (CHR ''#'') @ ''L,0.9,1''))) \<noteq> 2"
    by (simp add: replicate_40 cstr_def NUL_def sscanf_L_f_d_def)
  have n: "CHR 0x0A \<notin> fst ` set (stamp 777 (replicate 40 (CHR ''#'') @ ''L,0.9,1''))"
    by (simp add: set_stamp)
  have d: "drop (40 * (length (stamp 777 (replicate 40 (CHR ''#'') @ ''L,0.9,1'')) div 40))
             (map fst (stamp 777 (replicate 40 (CHR ''#'') @ ''L,0.9,1''))) = ''L,0.9,1''"
    by (simp add: set_stamp)
  have e: "lineEffect 777 ''L,0.9,1'' (vision init) = (Finite 0.9, True, 777)"
    by (simp add: lineEffect_def cstr_def NUL_def scan_defs clampf_def)
  have v: "vision init = (Finite 0, False, 0)"
    by (simp add: vision_def init_def)
  from feed_line [OF bufOk_init n, of 777] d e p q v show ?thesis by simp
qed

text \<open>
  C5 as amended: the newline leaves VisionSample as it was whenever the line the
  receiver has stored (\<open>pending\<close>) has a wrong prefix or \<^verbatim>\<open>sscanf\<close> does not assign both
  fields from it; what lies in the array behind the stored line plays no role.  In
  particular every malformed line of at most 39 characters, received from an empty
  buffer, leaves VisionSample unchanged.  No error arises: the functions return the
  state.  (A longer line acts as its tail, see C2.)
\<close>

theorem malformed_dropped:
  "(bufOk st \<and>
    (take 2 (pending st) \<noteq> ''L,'' \<or> fst (sscanf_L_f_d (cstr (pending st))) \<noteq> 2) \<longrightarrow>
      vision (rxByte now (CHR 0x0A) st) = vision st) \<and>
   (bufOk st \<and> idx st = 0 \<and> CHR 0x0A \<notin> fst ` set bs \<and> length bs \<le> 39 \<and>
    (take 2 (map fst bs) \<noteq> ''L,'' \<or> fst (sscanf_L_f_d (cstr (map fst bs))) \<noteq> 2) \<longrightarrow>
      vision (readVisionSerial (bs @ [(CHR 0x0A, now)]) st) = vision st)"
proof (rule conjI; rule impI)
  assume h: "bufOk st \<and>
    (take 2 (pending st) \<noteq> ''L,'' \<or> fst (sscanf_L_f_d (cstr (pending st))) \<noteq> 2)"
  then have b: "bufOk st" by simp
  from rxByte_newline(1) [OF b, of now] h
  show "vision (rxByte now (CHR 0x0A) st) = vision st"
    by (auto simp: lineEffect_def split: prod.splits)
next
  assume h: "bufOk st \<and> idx st = 0 \<and> CHR 0x0A \<notin> fst ` set bs \<and> length bs \<le> 39 \<and>
    (take 2 (map fst bs) \<noteq> ''L,'' \<or> fst (sscanf_L_f_d (cstr (map fst bs))) \<noteq> 2)"
  then have "vision (readVisionSerial (bs @ [(CHR 0x0A, now)]) st) =
      lineEffect now (map fst bs) (vision st)"
    by (intro feed_short_line) simp_all
  with h show "vision (readVisionSerial (bs @ [(CHR 0x0A, now)]) st) = vision st"
    by (auto simp: lineEffect_def split: prod.splits)
qed

theorem malformed_dropped_witness:
  "bufOk (init\<lparr>buf := ''L,0.5,x'' @ replicate 33 (CHR ''#''), idx := 7\<rparr>) \<and>
   take 2 (pending (init\<lparr>buf := ''L,0.5,x'' @ replicate 33 (CHR ''#''), idx := 7\<rparr>)) = ''L,'' \<and>
   fst (sscanf_L_f_d (cstr (pending (init\<lparr>buf := ''L,0.5,x'' @ replicate 33 (CHR ''#''), idx := 7\<rparr>)))) = 1 \<and>
   vision (rxByte 50 (CHR 0x0A) (init\<lparr>buf := ''L,0.5,x'' @ replicate 33 (CHR ''#''), idx := 7\<rparr>)) =
     (Finite 0, False, 0) \<and>
   vision (readVisionSerial (stamp 50 ''X,0.5,1'' @ [(CHR 0x0A, 50)]) init) = vision init \<and>
   vision (readVisionSerial (stamp 50 ''L,abc,1'' @ [(CHR 0x0A, 50)]) init) = vision init \<and>
   vision (readVisionSerial (stamp 50 ''L,0.5'' @ [(CHR 0x0A, 50)]) init) = vision init"
proof -
  let ?st = "init\<lparr>buf := ''L,0.5,x'' @ replicate 33 (CHR ''#''), idx := 7\<rparr>"
  have p: "pending ?st = ''L,0.5,x''" by (simp add: pending_def)
  have h: "bufOk ?st" "take 2 (pending ?st) = ''L,''" "fst (sscanf_L_f_d (cstr (pending ?st))) = 1"
    unfolding p by (simp_all add: bufOk_def scan_defs cstr_def NUL_def)
  have v: "vision ?st = (Finite 0, False, 0)" by (simp add: vision_def init_def)
  from malformed_dropped [where st = ?st and now = 50] h v
  have r: "vision (rxByte 50 (CHR 0x0A) ?st) = (Finite 0, False, 0)" by simp
  have i: "bufOk init \<and> idx init = 0" by (simp add: bufOk_init)
  have a: "vision (readVisionSerial (stamp 50 ''X,0.5,1'' @ [(CHR 0x0A, 50)]) init) = vision init"
    using malformed_dropped [where st = init and now = 50 and bs = "stamp 50 ''X,0.5,1''"] i
    by (simp add: set_stamp malformed_examples)
  have b: "vision (readVisionSerial (stamp 50 ''L,abc,1'' @ [(CHR 0x0A, 50)]) init) = vision init"
    using malformed_dropped [where st = init and now = 50 and bs = "stamp 50 ''L,abc,1''"] i
    by (simp add: set_stamp malformed_examples)
  have c: "vision (readVisionSerial (stamp 50 ''L,0.5'' @ [(CHR 0x0A, 50)]) init) = vision init"
    using malformed_dropped [where st = init and now = 50 and bs = "stamp 50 ''L,0.5''"] i
    by (simp add: set_stamp malformed_examples)
  from h r a b c show ?thesis by simp
qed

subsection \<open>C6: a parsed line\<close>

text \<open>
  C6: on a parsed line \<open>lastLk\<close> is the value clamped to [0,1], \<open>lastValid\<close> is
  (\<open>v \<noteq> 0\<close>) and \<open>lastVisionMs\<close> the current time.  The code does this for every
  value except NaN (lemmas \<open>parsed_line_effect\<close> and \<open>parsed_examples\<close>: \<^verbatim>\<open>L,0.42,1\<close>
  gives (0.42, true, now), \<^verbatim>\<open>L,1.5,0\<close> gives (1, false, now)).  For NaN it does not:
  \<^verbatim>\<open>sscanf\<close> assigns both fields from \<^verbatim>\<open>L,nan,1\<close>, both comparisons of \<^verbatim>\<open>clampf\<close> are
  false, and NaN is stored in \<open>lastLk\<close>, outside [0,1], against the comment
  \<^verbatim>\<open>// 0..1\<close> at its declaration.  With this sample trusted, both comparisons of
  \<^verbatim>\<open>updateScheduler\<close> are false as well and the high band is chosen (base speed 0.60).
\<close>

theorem nan_not_clamped:
  "sscanf_L_f_d ''L,nan,1'' = (2, NaN, 1) \<and>
   vision (readVisionSerial (stamp 1234 ''L,nan,1'' @ [(CHR 0x0A, 1234)]) init) = (NaN, True, 1234) \<and>
   \<not> (Finite 0 \<le> lastLk (readVisionSerial (stamp 1234 ''L,nan,1'' @ [(CHR 0x0A, 1234)]) init) \<and>
      lastLk (readVisionSerial (stamp 1234 ''L,nan,1'' @ [(CHR 0x0A, 1234)]) init) \<le> Finite 1) \<and>
   baseSpeed (updateScheduler 1300
     (readVisionSerial (stamp 1234 ''L,nan,1'' @ [(CHR 0x0A, 1234)]) init)) = 0.60"
proof -
  let ?st = "readVisionSerial (stamp 1234 ''L,nan,1'' @ [(CHR 0x0A, 1234)]) init"
  have s: "sscanf_L_f_d ''L,nan,1'' = (2, NaN, 1)"
    by (simp add: scan_defs)
  have v: "vision ?st = (NaN, True, 1234)"
    by (rule parsed_examples)
  then have f: "lastLk ?st = NaN" "lastValid ?st = True" "lastVisionMs ?st = 1234"
    by (simp_all add: vision_def)
  have u: "baseSpeed (updateScheduler 1300 ?st) = 0.60"
    by (simp add: updateScheduler_def useVision_def visionFresh_def effectiveLk_def f
        clampf_def BASE_MIN_def BASE_MAX_def Let_def)
  from s v f u show ?thesis by simp
qed

subsection \<open>C7: the command mixer\<close>

text \<open>
  C7: for every base speed and correction \<open>u\<close> the left command is \<open>baseSpeed - u\<close>
  and the right command \<open>baseSpeed + u\<close>, each clamped to [-1,1] on its own, without
  rescaling when only one side saturates: base speed 0.60 and \<open>u = 0.90\<close> give left
  -0.30 and right 1.00.  This pair, computed from the base speed after the PID block,
  is what a tick hands to \<^verbatim>\<open>outputMotors\<close>.
\<close>

theorem mixer:
  "mix base u = (clampf (base - u) (-1) 1, clampf (base + u) (-1) 1) \<and>
   mix 0.60 0.90 = (-0.30, 1.00) \<and>
   (snd (controlTick nowUs nowMs ar st) = None \<or>
    (\<exists>u. snd (controlTick nowUs nowMs ar st) =
       Some (clampf (baseSpeed (fst (controlTick nowUs nowMs ar st)) - u) (-1) 1,
             clampf (baseSpeed (fst (controlTick nowUs nowMs ar st)) + u) (-1) 1)))"
proof -
  have m: "mix base u = (clampf (base - u) (-1) 1, clampf (base + u) (-1) 1)" for base u
    by (simp add: mix_def)
  have e: "mix 0.60 0.90 = (-0.30, 1.00)"
    by (simp add: mix_def clampf_def)
  have t: "snd (controlTick nowUs nowMs ar st) = None \<or>
    (\<exists>u. snd (controlTick nowUs nowMs ar st) =
       Some (clampf (baseSpeed (fst (controlTick nowUs nowMs ar st)) - u) (-1) 1,
             clampf (baseSpeed (fst (controlTick nowUs nowMs ar st)) + u) (-1) 1))"
    by (auto simp add: controlTick_def m Let_def split: prod.splits)
  from m e t show ?thesis by blast
qed

theorem mixer_witness:
  "mix 0.25 (-0.85) = (1, -0.60)"
  using mixer [of "0.25" "-0.85"] by (simp add: clampf_def)

subsection \<open>C8: reset of the PID state\<close>

text \<open>
  C8: \<open>integ\<close> and \<open>prevE\<close> are reset together or not at all.  A call of the tick either
  returns early and leaves both as they were, or finds the line lost and sets both to
  0, or finds the line with error \<open>e\<close> and applies the normal update to both
  (\<open>integ + e * dt\<close> and \<open>e\<close>).  No case zeroes one of them as a reset and not the
  other.
\<close>

theorem pid_reset_together:
  "(snd (controlTick nowUs nowMs analogRead st) = None \<and>
      integ (fst (controlTick nowUs nowMs analogRead st)) = integ st \<and>
      prevE (fst (controlTick nowUs nowMs analogRead st)) = prevE st) \<or>
   (computeIrError analogRead = None \<and>
      integ (fst (controlTick nowUs nowMs analogRead st)) = 0 \<and>
      prevE (fst (controlTick nowUs nowMs analogRead st)) = 0) \<or>
   (\<exists>e. computeIrError analogRead = Some e \<and>
      integ (fst (controlTick nowUs nowMs analogRead st)) =
        integ st + e * (real (unat (nowUs - lastControlUs st)) / 1000000) \<and>
      prevE (fst (controlTick nowUs nowMs analogRead st)) = e)"
proof (cases "nowUs - lastControlUs st < CONTROL_DT_US")
  case True
  then show ?thesis by (simp add: controlTick_def)
next
  case False
  have u: "integ (updateScheduler nowMs (st\<lparr>lastControlUs := nowUs\<rparr>)) = integ st"
          "prevE (updateScheduler nowMs (st\<lparr>lastControlUs := nowUs\<rparr>)) = prevE st"
    by (simp_all add: updateScheduler_def Let_def)
  show ?thesis
  proof (cases "computeIrError analogRead")
    case None
    with False show ?thesis by (simp add: controlTick_def pidBlock_def Let_def)
  next
    case (Some e)
    with False u show ?thesis by (simp add: controlTick_def pidBlock_def Let_def)
  qed
qed

theorem pid_reset_together_witness:
  "integ (fst (controlTick 5000 5 (\<lambda>_. 0) (init\<lparr>integ := 3, prevE := 4\<rparr>))) = 0 \<and>
   prevE (fst (controlTick 5000 5 (\<lambda>_. 0) (init\<lparr>integ := 3, prevE := 4\<rparr>))) = 0"
proof -
  have l: "computeIrError (\<lambda>_. 0) = None"
    by (rule all_zero_lost) simp
  have d: "snd (controlTick 5000 5 (\<lambda>_. 0) (init\<lparr>integ := 3, prevE := 4\<rparr>)) \<noteq> None"
    by (simp add: controlTick_def CONTROL_DT_US_def init_def Let_def split: prod.splits)
  from pid_reset_together [of 5000 5 "\<lambda>_. 0" "init\<lparr>integ := 3, prevE := 4\<rparr>"] l d
  show ?thesis by simp
qed

subsection \<open>C9: the integral gain\<close>

text \<open>
  C9: \<open>Ki\<close> is 0 initially and in every profile the scheduler sets (safe mode and the
  three bands), hence in every state reached by running \<^verbatim>\<open>loop\<close> from the initial
  state.  The tick schedules the gains before the PID block, so the integral term
  contributes 0 and the correction is \<open>u = Kp * e + Kd * de\<close> with
  \<open>de = (e - prevE) / dt\<close>, whatever value \<open>integ\<close> has.
\<close>

theorem ki_always_zero:
  "Ki init = 0 \<and> Ki (updateScheduler now st) = 0 \<and> Ki (run is init) = 0 \<and>
   snd (pidBlock (Some e) dt (updateScheduler now st)) =
     Kp (updateScheduler now st) * e + Kd (updateScheduler now st) * ((e - prevE st) / dt)"
proof -
  have "Ki init = 0" by (simp add: init_def)
  moreover from this have "Ki (run is init) = 0" by (rule run_Ki)
  moreover have "prevE (updateScheduler now st) = prevE st"
    by (simp add: updateScheduler_def Let_def)
  ultimately show ?thesis
    by (simp add: pidBlock_def updateScheduler_Ki Let_def)
qed

theorem ki_always_zero_witness:
  "snd (pidBlock (Some 0.01) 0.005 (updateScheduler 5 (init\<lparr>integ := 1000\<rparr>))) = 0.207"
proof -
  have g: "Kp (updateScheduler 5 (init\<lparr>integ := 1000\<rparr>)) = 0.70"
          "Kd (updateScheduler 5 (init\<lparr>integ := 1000\<rparr>)) = 0.10"
          "prevE (init\<lparr>integ := 1000\<rparr>) = 0"
    by (simp_all add: updateScheduler_def useVision_def init_def)
  from ki_always_zero [of 5 "init\<lparr>integ := 1000\<rparr>" "[]" "0.01" "0.005"] g
  show ?thesis by simp
qed

subsection \<open>C10: characters after the integer\<close>

text \<open>
  C10 as stated: every newline-terminated line that begins with \<^verbatim>\<open>L,\<close>, a float and
  an int updates VisionSample, whatever characters follow the integer.

  This fails when the characters that follow make the line longer than the buffer.
  \<^verbatim>\<open>L,0.5,1\<close> followed by 40 times \<^verbatim>\<open>x\<close> begins with the three fields (\<^verbatim>\<open>sscanf\<close>
  assigns both from it), but the 40th character resets the index, only seven \<^verbatim>\<open>x\<close>
  are stored when the newline arrives, and VisionSample stays as it was.
\<close>

theorem trailing_overflow_counterexample:
  "take 2 (''L,0.5,1'' @ replicate 40 (CHR ''x'')) = ''L,'' \<and>
   sscanf_L_f_d (''L,0.5,1'' @ replicate 40 (CHR ''x'')) = (2, Finite 0.5, 1) \<and>
   CHR 0x0A \<notin> set (''L,0.5,1'' @ replicate 40 (CHR ''x'')) \<and>
   vision init = (Finite 0, False, 0) \<and>
   vision (readVisionSerial
     (stamp 1234 (''L,0.5,1'' @ replicate 40 (CHR ''x'')) @ [(CHR 0x0A, 1234)]) init) =
   (Finite 0, False, 0)"
proof -
  have p: "take 2 (''L,0.5,1'' @ replicate 40 (CHR ''x'')) = ''L,''" by simp
  have s0: "sscanf_L_f_d ''L,0.5,1'' = (2, Finite 0.5, 1)"
    by (simp add: scan_defs)
  have x: "replicate 40 (CHR ''x'') = [] \<or> \<not> isdigit (hd (replicate 40 (CHR ''x'')))"
    by (simp add: isdigit_def)
  from sscanf_append [OF s0, of "replicate 40 (CHR ''x'')"] x
  have s: "sscanf_L_f_d (''L,0.5,1'' @ replicate 40 (CHR ''x'')) = (2, Finite 0.5, 1)"
    by auto
  have n: "CHR 0x0A \<notin> fst ` set (stamp 1234 (''L,0.5,1'' @ replicate 40 (CHR ''x'')))"
    by (simp add: set_stamp)
  have d: "drop (40 * (length (stamp 1234 (''L,0.5,1'' @ replicate 40 (CHR ''x''))) div 40))
             (map fst (stamp 1234 (''L,0.5,1'' @ replicate 40 (CHR ''x'')))) = replicate 7 (CHR ''x'')"
    by (simp add: set_stamp)
  have e: "lineEffect 1234 (replicate 7 (CHR ''x'')) (vision init) = vision init"
    by (simp add: lineEffect_def numeral_eq_Suc)
  have v: "vision init = (Finite 0, False, 0)"
    by (simp add: vision_def init_def)
  from feed_line [OF bufOk_init n, of 1234] d e v p s show ?thesis by simp
qed

text \<open>
  C10 as amended: a line need not consist of the three fields only, as long as it
  fits into the buffer.  If \<open>l\<close> has the prefix and \<^verbatim>\<open>sscanf\<close> assigns both fields from
  it, then \<open>l\<close> followed by any further characters \<open>extra\<close> (no newline among them,
  at most 39 characters in all), received from an empty buffer, updates
  VisionSample: \<open>lastLk\<close> is the clamped value and \<open>lastVisionMs\<close> the current time,
  and \<open>lastValid\<close> is as for \<open>l\<close> unless \<open>extra\<close> starts with a digit that continues
  the integer.  The lines \<^verbatim>\<open>L,0.5,1,extra\<close> and \<^verbatim>\<open>L,0.5,1junk\<close> both give
  (0.5, true, now).
\<close>

theorem trailing_accepted:
  "(bufOk st \<and> idx st = 0 \<and> CHR 0x0A \<notin> set (l @ extra) \<and> length (l @ extra) \<le> 39 \<and>
    take 2 l = ''L,'' \<and> sscanf_L_f_d (cstr l) = (2, lk, v) \<longrightarrow>
      lastLk (readVisionSerial (stamp now (l @ extra) @ [(CHR 0x0A, now)]) st) =
        clampf lk (Finite 0) (Finite 1) \<and>
      lastVisionMs (readVisionSerial (stamp now (l @ extra) @ [(CHR 0x0A, now)]) st) = now \<and>
      (extra = [] \<or> \<not> isdigit (hd extra) \<longrightarrow>
         lastValid (readVisionSerial (stamp now (l @ extra) @ [(CHR 0x0A, now)]) st) = (v \<noteq> 0))) \<and>
   vision (readVisionSerial (stamp now ''L,0.5,1,extra'' @ [(CHR 0x0A, now)]) init) =
     (Finite 0.5, True, now) \<and>
   vision (readVisionSerial (stamp now ''L,0.5,1junk'' @ [(CHR 0x0A, now)]) init) =
     (Finite 0.5, True, now)"
proof -
  let ?st' = "readVisionSerial (stamp now (l @ extra) @ [(CHR 0x0A, now)]) st"
  have g: "lastLk ?st' = clampf lk (Finite 0) (Finite 1) \<and> lastVisionMs ?st' = now \<and>
      (extra = [] \<or> \<not> isdigit (hd extra) \<longrightarrow> lastValid ?st' = (v \<noteq> 0))"
    if h: "bufOk st \<and> idx st = 0 \<and> CHR 0x0A \<notin> set (l @ extra) \<and> length (l @ extra) \<le> 39 \<and>
      take 2 l = ''L,'' \<and> sscanf_L_f_d (cstr l) = (2, lk, v)"
  proof -
    from h have f: "vision ?st' = lineEffect now (l @ extra) (vision st)"
      using feed_short_line [of st "stamp now (l @ extra)" now] by (simp add: set_stamp)
    from h have "2 \<le> length l" by (cases l; cases "tl l") auto
    with h have p: "take 2 (l @ extra) = ''L,''" by simp
    obtain e where e: "cstr (l @ extra) = cstr l @ e"
      "extra = [] \<or> \<not> isdigit (hd extra) \<longrightarrow> e = [] \<or> \<not> isdigit (hd e)"
      using cstr_append [of l extra] by blast
    from h have "sscanf_L_f_d (cstr l) = (2, lk, v)" by simp
    from sscanf_append [OF this, of e] obtain v' where
      v': "sscanf_L_f_d (cstr l @ e) = (2, lk, v')" "e = [] \<or> \<not> isdigit (hd e) \<longrightarrow> v' = v"
      by blast
    from f p e(1) v'(1) have "vision ?st' = (clampf lk (Finite 0) (Finite 1), v' \<noteq> 0, now)"
      by (simp add: lineEffect_def)
    with e(2) v'(2) show ?thesis by (auto simp: vision_def)
  qed
  from g parsed_examples(3,4) show ?thesis by blast
qed

theorem trailing_accepted_witness:
  "bufOk init \<and> idx init = 0 \<and> CHR 0x0A \<notin> set (''L,0.25,1'' @ [CHR 0x0D]) \<and>
   length (''L,0.25,1'' @ [CHR 0x0D]) \<le> 39 \<and> take 2 ''L,0.25,1'' = ''L,'' \<and>
   sscanf_L_f_d (cstr ''L,0.25,1'') = (2, Finite 0.25, 1) \<and>
   \<not> isdigit (hd [CHR 0x0D]) \<and>
   vision (readVisionSerial (stamp 77 (''L,0.25,1'' @ [CHR 0x0D]) @ [(CHR 0x0A, 77)]) init) =
   (Finite 0.25, True, 77)"
proof -
  have h: "bufOk init \<and> idx init = 0 \<and> CHR 0x0A \<notin> set (''L,0.25,1'' @ [CHR 0x0D]) \<and>
     length (''L,0.25,1'' @ [CHR 0x0D]) \<le> 39 \<and> take 2 ''L,0.25,1'' = ''L,'' \<and>
     sscanf_L_f_d (cstr ''L,0.25,1'') = (2, Finite 0.25, 1)"
    by (simp add: bufOk_init scan_defs cstr_def NUL_def)
  have x: "[CHR 0x0D] = [] \<or> \<not> isdigit (hd [CHR 0x0D])"
    by (simp add: isdigit_def)
  from trailing_accepted [where st = init and l = "''L,0.25,1''" and extra = "[CHR 0x0D]"
      and lk = "Finite 0.25" and v = 1 and now = 77] h x
  have "lastLk (readVisionSerial (stamp 77 (''L,0.25,1'' @ [CHR 0x0D]) @ [(CHR 0x0A, 77)]) init) =
          clampf (Finite 0.25) (Finite 0) (Finite 1) \<and>
        lastVisionMs (readVisionSerial (stamp 77 (''L,0.25,1'' @ [CHR 0x0D]) @ [(CHR 0x0A, 77)]) init) = 77 \<and>
        lastValid (readVisionSerial (stamp 77 (''L,0.25,1'' @ [CHR 0x0D]) @ [(CHR 0x0A, 77)]) init) =
          ((1::cint) \<noteq> 0)"
    by blast
  with h x show ?thesis by (simp add: vision_def clampf_def)
qed

end
